theory Spec2Isabelle
  imports Complex_Main
begin

section \<open>Configuration and key table\<close>

text \<open>
  A Python float, as far as the program tells floats apart: a finite value (kept as an
  exact rational), the two infinities, and not-a-number. \<open>float_le\<close> and \<open>float_lt\<close>
  are Python's \<^verbatim>\<open><=\<close> and \<^verbatim>\<open><\<close>: every comparison with not-a-number is false.
\<close>

datatype pyfloat = Finite rat | PosInf | NegInf | NaN

fun float_le :: "pyfloat \<Rightarrow> pyfloat \<Rightarrow> bool" where
  "float_le (Finite x) (Finite y) = (x \<le> y)"
| "float_le (Finite x) PosInf = True"
| "float_le NegInf (Finite y) = True"
| "float_le NegInf NegInf = True"
| "float_le NegInf PosInf = True"
| "float_le PosInf PosInf = True"
| "float_le _ _ = False"

definition float_lt :: "pyfloat \<Rightarrow> pyfloat \<Rightarrow> bool" where
  "float_lt x y \<longleftrightarrow> float_le x y \<and> \<not> float_le y x"

text \<open>
  The command line of \<^verbatim>\<open>ir_web.py\<close>, restricted to the options that the press engine
  reads: \<^verbatim>\<open>--repeat-interval\<close> is any Python int, \<^verbatim>\<open>--max-hold\<close> any Python float
  (\<^verbatim>\<open>type=float\<close> accepts \<^verbatim>\<open>inf\<close> and \<^verbatim>\<open>nan\<close>). Times are in seconds.
\<close>

record args =
  device :: string
  repeat_interval :: int
  max_hold :: pyfloat

definition IR_DEVICE :: "args \<Rightarrow> string" where
  "IR_DEVICE a = device a"

definition REPEAT_INTERVAL_MS :: "args \<Rightarrow> int" where
  "REPEAT_INTERVAL_MS a = max 1 (repeat_interval a)"

text \<open>
  \<^verbatim>\<open>max(0.1, args.max_hold)\<close>: Python's \<^verbatim>\<open>max\<close> keeps its first argument unless the
  second is greater.
\<close>

definition MAX_HOLD_S :: "args \<Rightarrow> pyfloat" where
  "MAX_HOLD_S a = (if float_lt (Finite (1 / 10)) (max_hold a) then max_hold a else Finite (1 / 10))"

text \<open>
  A value of \<^verbatim>\<open>key.json\<close>: either a JSON list, whose elements are kept as the text
  that \<^verbatim>\<open>f"nec:{sc}"\<close> formats them to, or any other JSON value.
\<close>

datatype json = JList "string list" | JOther

type_synonym keymap = "string \<rightharpoonup> json"

fun isinstance_list :: "json \<Rightarrow> bool" where
  "isinstance_list (JList xs) = True"
| "isinstance_list JOther = False"

fun items :: "json \<Rightarrow> string list" where
  "items (JList xs) = xs"
| "items JOther = []"

section \<open>The command sender\<close>

text \<open>
  What \<^verbatim>\<open>subprocess.run(cmd, check=True)\<close> does: it returns, or raises one of the
  exceptions that \<^verbatim>\<open>send_scancodes_for_key\<close> distinguishes. \<open>PermissionError\<close> (the tool
  is there and cannot be executed) and \<open>OtherException\<close> carry the exception's text; both
  are caught by \<^verbatim>\<open>except Exception\<close>.
\<close>

datatype run_outcome =
    Completed
  | CalledProcessError int
  | FileNotFoundError
  | PermissionError string
  | OtherException string

text \<open>
  The transmit tool as one thread of control meets it: the outcome and the duration of
  the thread's \<open>n\<close>-th call of \<^verbatim>\<open>subprocess.run\<close> (counting from 0), given the
  command. A negative duration counts as none: the clock is monotonic.
\<close>

type_synonym hardware = "nat \<Rightarrow> string list \<Rightarrow> run_outcome \<times> rat"

text \<open>The message texts of the program, one constructor per (format) string.\<close>

datatype message =
    Unknown_key string
  | No_scancodes string
  | Command_failed "string list" int
  | Ir_ctl_not_found
  | Exec_error string
  | OK
  | Sent
  | Started
  | Already_down
  | Not_active
  | Stopping
  | Missing_fields
  | Invalid_json string
  | Unknown_action

text \<open>The lines a press thread prints.\<close>

datatype line =
    Initial_send string string bool message
  | Repeat_send string string bool message
  | Reached_max_hold string string pyfloat
  | Thread_exit string string

text \<open>
  What a thread does to the world outside itself: a transmit call with its outcome, a
  printed line, and the removal of a key from \<^verbatim>\<open>active_presses\<close> under
  \<^verbatim>\<open>active_lock\<close>.
\<close>

datatype effect =
    Run_cmd "string list" run_outcome
  | Print line
  | Pop "string \<times> string"

text \<open>
  The state of one thread of control: the monotonic clock as the thread reads it, the
  number of transmit calls it has made, and its effects so far, each with the time at
  which it began, oldest first.
\<close>

record tstate =
  clock :: rat
  ncalls :: nat
  effects :: "(rat \<times> effect) list"

definition subprocess_run :: "hardware \<Rightarrow> string list \<Rightarrow> tstate \<Rightarrow> run_outcome \<times> tstate" where
  "subprocess_run hw cmd s =
     (case hw (ncalls s) cmd of
        (r, d) \<Rightarrow>
          (r, s\<lparr>clock := clock s + max 0 d,
                ncalls := Suc (ncalls s),
                effects := effects s @ [(clock s, Run_cmd cmd r)]\<rparr>))"

definition ir_ctl_cmd :: "args \<Rightarrow> string \<Rightarrow> string list" where
  "ir_ctl_cmd a sc = [''ir-ctl'', ''-d'', IR_DEVICE a, ''--scancode'', ''nec:'' @ sc]"

text \<open>The \<^verbatim>\<open>for sc in scs\<close> loop of \<^verbatim>\<open>send_scancodes_for_key\<close>.\<close>

fun send_loop :: "args \<Rightarrow> hardware \<Rightarrow> string list \<Rightarrow> tstate \<Rightarrow> (bool \<times> message) \<times> tstate" where
  "send_loop a hw [] s = ((True, OK), s)"
| "send_loop a hw (sc # scs) s =
     (case subprocess_run hw (ir_ctl_cmd a sc) s of
        (Completed, s') \<Rightarrow> send_loop a hw scs s'
      | (CalledProcessError rc, s') \<Rightarrow> ((False, Command_failed (ir_ctl_cmd a sc) rc), s')
      | (FileNotFoundError, s') \<Rightarrow> ((False, Ir_ctl_not_found), s')
      | (PermissionError e, s') \<Rightarrow> ((False, Exec_error e), s')
      | (OtherException e, s') \<Rightarrow> ((False, Exec_error e), s'))"

definition send_scancodes_for_key ::
  "args \<Rightarrow> keymap \<Rightarrow> hardware \<Rightarrow> string \<Rightarrow> tstate \<Rightarrow> (bool \<times> message) \<times> tstate" where
  "send_scancodes_for_key a KEYMAP hw key_name s =
     (case KEYMAP key_name of
        None \<Rightarrow> ((False, Unknown_key key_name), s)
      | Some scs \<Rightarrow>
          if \<not> isinstance_list scs \<or> items scs = [] then ((False, No_scancodes key_name), s)
          else send_loop a hw (items scs) s)"

section \<open>The press thread\<close>

text \<open>
  What the program takes from the platform it runs on: \<^verbatim>\<open>threading.TIMEOUT_MAX\<close>, the
  longest timeout a wait accepts; the largest int that the true division of line 94
  converts to a float; and the lines that \<^verbatim>\<open>print\<close> can write to the standard output
  (its encoding rejects some text).
\<close>

record platform =
  TIMEOUT_MAX :: rat
  FLOAT_MAX :: int
  stdout_accepts :: "line \<Rightarrow> bool"

text \<open>
  The exceptions that nothing in \<^verbatim>\<open>repeat_thread_func\<close> catches, and how a thread ends:
  \<open>Inl (e, s)\<close> when the exception \<open>e\<close> escapes it in state \<open>s\<close>, \<open>Inr s\<close> when it returns.
\<close>

datatype exn = OverflowError | UnicodeEncodeError

type_synonym outcome = "exn \<times> tstate + tstate"

fun state_of :: "outcome \<Rightarrow> tstate" where
  "state_of (Inl (e, s)) = s"
| "state_of (Inr s) = s"

text \<open>
  A \<^verbatim>\<open>threading.Event\<close> as the thread that waits on it meets it: \<open>stop_at\<close> is the time
  at which another thread sets it (\<open>None\<close>: never). The program never clears an event.
\<close>

definition is_set :: "rat option \<Rightarrow> tstate \<Rightarrow> bool" where
  "is_set stop_at s = (case stop_at of None \<Rightarrow> False | Some u \<Rightarrow> u \<le> clock s)"

text \<open>
  \<^verbatim>\<open>stop_event.wait(timeout)\<close>: \<open>True\<close> at once when the event is set; otherwise the
  wait on the condition raises \<^verbatim>\<open>OverflowError\<close> for a timeout above
  \<^verbatim>\<open>threading.TIMEOUT_MAX\<close>, returns \<open>True\<close> as soon as the event is set, and \<open>False\<close>
  after \<open>timeout\<close> seconds.
\<close>

definition wait :: "platform \<Rightarrow> rat option \<Rightarrow> rat \<Rightarrow> tstate \<Rightarrow> exn \<times> tstate + bool \<times> tstate" where
  "wait p stop_at timeout s =
     (if is_set stop_at s then Inr (True, s)
      else if TIMEOUT_MAX p < timeout then Inl (OverflowError, s)
      else
        (case stop_at of
           None \<Rightarrow> Inr (False, s\<lparr>clock := clock s + timeout\<rparr>)
         | Some u \<Rightarrow>
             if u \<le> clock s + timeout then Inr (True, s\<lparr>clock := u\<rparr>)
             else Inr (False, s\<lparr>clock := clock s + timeout\<rparr>)))"

text \<open>\<^verbatim>\<open>print(line)\<close>: raises when the standard output does not accept the line.\<close>

definition print :: "platform \<Rightarrow> line \<Rightarrow> tstate \<Rightarrow> outcome" where
  "print p l s =
     (if stdout_accepts p l then Inr (s\<lparr>effects := effects s @ [(clock s, Print l)]\<rparr>)
      else Inl (UnicodeEncodeError, s))"

text \<open>\<^verbatim>\<open>with active_lock: active_presses.pop(k, None)\<close>, as an effect of the thread.\<close>

definition pop :: "string \<times> string \<Rightarrow> tstate \<Rightarrow> tstate" where
  "pop k s = s\<lparr>effects := effects s @ [(clock s, Pop k)]\<rparr>"

text \<open>\<^verbatim>\<open>REPEAT_INTERVAL_MS / 1000.0\<close>, where the division does not overflow.\<close>

definition interval :: "args \<Rightarrow> rat" where
  "interval a = of_int (REPEAT_INTERVAL_MS a) / 1000"

text \<open>
  The \<^verbatim>\<open>while not stop_event.is_set()\<close> loop of \<^verbatim>\<open>repeat_thread_func\<close>. It need not
  end: the value is \<open>None\<close> when it runs for ever.
\<close>

partial_function (option) repeat_loop ::
  "platform \<Rightarrow> args \<Rightarrow> keymap \<Rightarrow> hardware \<Rightarrow> rat option \<Rightarrow> string \<Rightarrow> string \<Rightarrow> rat \<Rightarrow> tstate
     \<Rightarrow> outcome option" where
  "repeat_loop p a KEYMAP hw stop_at client_id key_name start s =
     (if is_set stop_at s then Some (Inr s)
      else if float_le (MAX_HOLD_S a) (Finite (clock s - start))
        then Some (print p (Reached_max_hold client_id key_name (MAX_HOLD_S a)) s)
      else
        (case wait p stop_at (interval a) s of
           Inl e \<Rightarrow> Some (Inl e)
         | Inr (signalled, s1) \<Rightarrow>
             if signalled then Some (Inr s1)
             else
               (case send_scancodes_for_key a KEYMAP hw key_name s1 of
                  ((ok, msg), s2) \<Rightarrow>
                    (case print p (Repeat_send client_id key_name ok msg) s2 of
                       Inl e \<Rightarrow> Some (Inl e)
                     | Inr s3 \<Rightarrow>
                         repeat_loop p a KEYMAP hw stop_at client_id key_name start s3))))"

text \<open>
  \<^verbatim>\<open>repeat_thread_func\<close>. Nothing in it catches an exception: one that escapes a
  \<^verbatim>\<open>print\<close>, the division of line 94 or the wait ends the thread there, before the
  \<^verbatim>\<open>pop\<close> that follows the loop.
\<close>

definition repeat_thread_func ::
  "platform \<Rightarrow> args \<Rightarrow> keymap \<Rightarrow> hardware \<Rightarrow> rat option \<Rightarrow> string \<Rightarrow> string \<Rightarrow> tstate
     \<Rightarrow> outcome option" where
  "repeat_thread_func p a KEYMAP hw stop_at client_id key_name s =
     (let start = clock s in
      case send_scancodes_for_key a KEYMAP hw key_name s of
        ((ok, msg), s1) \<Rightarrow>
          (case print p (Initial_send client_id key_name ok msg) s1 of
             Inl e \<Rightarrow> Some (Inl e)
           | Inr s2 \<Rightarrow>
               if FLOAT_MAX p < REPEAT_INTERVAL_MS a then Some (Inl (OverflowError, s2))
               else
                 (case repeat_loop p a KEYMAP hw stop_at client_id key_name start s2 of
                    None \<Rightarrow> None
                  | Some (Inl e) \<Rightarrow> Some (Inl e)
                  | Some (Inr s3) \<Rightarrow>
                      Some (print p (Thread_exit client_id key_name)
                              (pop (client_id, key_name) s3)))))"

section \<open>The request handler and the press registry\<close>

text \<open>
  An entry of \<^verbatim>\<open>active_presses\<close>. Threads and events are objects on the heap: an entry
  holds their positions in the lists of the threads started and the events created so far.
\<close>

record info =
  thread :: nat
  stop_event :: nat
  start_time :: rat

text \<open>
  A thread started by a \<^verbatim>\<open>down\<close> request, with the arguments it was given;
  \<open>deregistered\<close> holds once it has run its \<^verbatim>\<open>active_presses.pop\<close>.
\<close>

record press_thread =
  t_client :: string
  t_key :: string
  t_stop_event :: nat
  deregistered :: bool

record server =
  active_presses :: "(string \<times> string) \<rightharpoonup> info"
  events :: "bool list"
  threads :: "press_thread list"

definition init_server :: server where
  "init_server = \<lparr>active_presses = Map.empty, events = [], threads = []\<rparr>"

text \<open>
  The body of a POST request: text that \<^verbatim>\<open>json.loads\<close> or \<^verbatim>\<open>data.get\<close> rejects, or
  an object with its \<^verbatim>\<open>action\<close>, \<^verbatim>\<open>key\<close> and \<^verbatim>\<open>client_id\<close> fields, each absent or a
  string.
\<close>

datatype body = Bad_json string | Object "string option" "string option" "string option"

record request =
  path :: string
  body :: body

datatype response = Json nat bool message | Not_found

text \<open>The three actions of \<^verbatim>\<open>do_POST\<close>, once the fields are there.\<close>

definition do_action ::
  "args \<Rightarrow> keymap \<Rightarrow> hardware \<Rightarrow> rat \<Rightarrow> string \<Rightarrow> string \<Rightarrow> string \<Rightarrow> server
     \<Rightarrow> response \<times> (rat \<times> effect) list \<times> server" where
  "do_action a KEYMAP hw now action key client_id sv =
     (if action = ''click'' then
        (case send_scancodes_for_key a KEYMAP hw key \<lparr>clock = now, ncalls = 0, effects = []\<rparr> of
           ((ok, msg), s) \<Rightarrow>
             if ok then (Json 200 True Sent, effects s, sv)
             else (Json 500 False msg, effects s, sv))
      else if action = ''down'' then
        (let k = (client_id, key) in
         if k \<in> dom (active_presses sv) then (Json 200 True Already_down, [], sv)
         else
           (Json 200 True Started, [],
            sv\<lparr>active_presses := (active_presses sv)(k \<mapsto>
                  \<lparr>thread = length (threads sv), stop_event = length (events sv),
                   start_time = now\<rparr>),
               events := events sv @ [False],
               threads := threads sv @
                 [\<lparr>t_client = client_id, t_key = key, t_stop_event = length (events sv),
                   deregistered = False\<rparr>]\<rparr>))
      else if action = ''up'' then
        (let k = (client_id, key) in
         case active_presses sv k of
           None \<Rightarrow> (Json 200 True Not_active, [], sv)
         | Some info \<Rightarrow>
             (Json 200 True Stopping, [],
              sv\<lparr>events := (events sv)[stop_event info := True]\<rparr>))
      else (Json 400 False Unknown_action, [], sv))"

text \<open>
  \<^verbatim>\<open>Handler.do_POST\<close>: the response, the effects of the handling thread (the transmit
  calls of a click) and the server afterwards. \<open>now\<close> is the handler's reading of the
  clock, \<open>hw\<close> the transmit tool as the handling thread meets it.
\<close>

definition do_POST ::
  "args \<Rightarrow> keymap \<Rightarrow> hardware \<Rightarrow> rat \<Rightarrow> request \<Rightarrow> server
     \<Rightarrow> response \<times> (rat \<times> effect) list \<times> server" where
  "do_POST a KEYMAP hw now req sv =
     (if path req = ''/action'' then
        (case body req of
           Bad_json e \<Rightarrow> (Json 400 False (Invalid_json e), [], sv)
         | Object (Some action) (Some key) (Some client_id) \<Rightarrow>
             if action = [] \<or> key = [] \<or> client_id = []
             then (Json 400 False Missing_fields, [], sv)
             else do_action a KEYMAP hw now action key client_id sv
         | Object _ _ _ \<Rightarrow> (Json 400 False Missing_fields, [], sv))
      else (Not_found, [], sv))"

text \<open>
  The server changes in two ways: a request is handled, or a press thread runs its
  \<^verbatim>\<open>active_presses.pop((client_id, key_name), None)\<close>, which it does once.
\<close>

datatype action = Post hardware rat request | Thread_pop nat

fun step :: "args \<Rightarrow> keymap \<Rightarrow> action \<Rightarrow> server \<Rightarrow> server" where
  "step a KEYMAP (Post hw now req) sv = snd (snd (do_POST a KEYMAP hw now req sv))"
| "step a KEYMAP (Thread_pop i) sv =
     (if i < length (threads sv) \<and> \<not> deregistered (threads sv ! i) then
        sv\<lparr>active_presses :=
              (active_presses sv)((t_client (threads sv ! i), t_key (threads sv ! i)) := None),
           threads := (threads sv)[i := (threads sv ! i)\<lparr>deregistered := True\<rparr>]\<rparr>
      else sv)"

fun run :: "args \<Rightarrow> keymap \<Rightarrow> action list \<Rightarrow> server \<Rightarrow> server" where
  "run a KEYMAP [] sv = sv"
| "run a KEYMAP (x # xs) sv = run a KEYMAP xs (step a KEYMAP x sv)"

text \<open>The press threads of a pair that have not deregistered.\<close>

definition live :: "string \<times> string \<Rightarrow> server \<Rightarrow> press_thread list" where
  "live k sv = filter (\<lambda>t. (t_client t, t_key t) = k \<and> \<not> deregistered t) (threads sv)"

definition down_request :: "string \<Rightarrow> string \<Rightarrow> request" where
  "down_request client_id key =
     \<lparr>path = ''/action'', body = Object (Some ''down'') (Some key) (Some client_id)\<rparr>"

definition up_request :: "string \<Rightarrow> string \<Rightarrow> request" where
  "up_request client_id key =
     \<lparr>path = ''/action'', body = Object (Some ''up'') (Some key) (Some client_id)\<rparr>"

definition click_request :: "string \<Rightarrow> string \<Rightarrow> request" where
  "click_request client_id key =
     \<lparr>path = ''/action'', body = Object (Some ''click'') (Some key) (Some client_id)\<rparr>"


section \<open>Auxiliary notions\<close>

text \<open>
  What the \<^verbatim>\<open>except\<close> clauses of \<^verbatim>\<open>send_scancodes_for_key\<close> return for an outcome of
  \<^verbatim>\<open>subprocess.run\<close> (and, for a call that completed, what the function returns when
  the list is exhausted).
\<close>

definition failure_message :: "string list \<Rightarrow> run_outcome \<Rightarrow> bool \<times> message" where
  "failure_message cmd r =
     (case r of
        Completed \<Rightarrow> (True, OK)
      | CalledProcessError rc \<Rightarrow> (False, Command_failed cmd rc)
      | FileNotFoundError \<Rightarrow> (False, Ir_ctl_not_found)
      | PermissionError e \<Rightarrow> (False, Exec_error e)
      | OtherException e \<Rightarrow> (False, Exec_error e))"

text \<open>The effects that remove a registry entry.\<close>

fun is_pop :: "effect \<Rightarrow> bool" where
  "is_pop (Pop k) = True"
| "is_pop _ = False"

text \<open>The scancodes that a send for a key can transmit: none for an unknown key.\<close>

definition scancodes :: "keymap \<Rightarrow> string \<Rightarrow> string list" where
  "scancodes KEYMAP key_name = (case KEYMAP key_name of None \<Rightarrow> [] | Some scs \<Rightarrow> items scs)"

text \<open>
  One pass through the \<^verbatim>\<open>while\<close> loop, from its test on: \<open>Inl r\<close> when the loop ends
  in this pass with outcome \<open>r\<close>, \<open>Inr s3\<close> when it goes round again from state \<open>s3\<close>.
\<close>

definition loop_pass ::
  "platform \<Rightarrow> args \<Rightarrow> keymap \<Rightarrow> hardware \<Rightarrow> rat option \<Rightarrow> string \<Rightarrow> string \<Rightarrow> rat \<Rightarrow> tstate
     \<Rightarrow> outcome + tstate" where
  "loop_pass p a KEYMAP hw stop_at client_id key_name start s =
     (if is_set stop_at s then Inl (Inr s)
      else if float_le (MAX_HOLD_S a) (Finite (clock s - start))
        then Inl (print p (Reached_max_hold client_id key_name (MAX_HOLD_S a)) s)
      else
        (case wait p stop_at (interval a) s of
           Inl e \<Rightarrow> Inl (Inl e)
         | Inr (signalled, s1) \<Rightarrow>
             if signalled then Inl (Inr s1)
             else
               (case send_scancodes_for_key a KEYMAP hw key_name s1 of
                  ((ok, msg), s2) \<Rightarrow>
                    (case print p (Repeat_send client_id key_name ok msg) s2 of
                       Inl e \<Rightarrow> Inl (Inl e)
                     | Inr s3 \<Rightarrow> Inr s3))))"

text \<open>
  The platform lets the thread run undisturbed: the interval converts to a float, a wait
  accepts it, and the standard output accepts every line.
\<close>

definition undisturbed :: "platform \<Rightarrow> args \<Rightarrow> bool" where
  "undisturbed p a \<longleftrightarrow>
     REPEAT_INTERVAL_MS a \<le> FLOAT_MAX p \<and> interval a \<le> TIMEOUT_MAX p \<and> (\<forall>l. stdout_accepts p l)"

text \<open>
  What ties the registry to the threads: an entry names a thread that was started for
  its pair with its event and has not deregistered, and every thread that has not
  deregistered is named by the entry of its pair.
\<close>

definition registry_ok :: "server \<Rightarrow> bool" where
  "registry_ok sv \<longleftrightarrow>
     (\<forall>k i. active_presses sv k = Some i \<longrightarrow>
        thread i < length (threads sv) \<and>
        threads sv ! thread i =
          \<lparr>t_client = fst k, t_key = snd k, t_stop_event = stop_event i, deregistered = False\<rparr> \<and>
        stop_event i < length (events sv)) \<and>
     (\<forall>j < length (threads sv). \<not> deregistered (threads sv ! j) \<longrightarrow>
        (\<exists>i. active_presses sv (t_client (threads sv ! j), t_key (threads sv ! j)) = Some i \<and>
             thread i = j))"

text \<open>What a \<^verbatim>\<open>down\<close> request for a pair without an entry does to the server.\<close>

definition register :: "rat \<Rightarrow> string \<Rightarrow> string \<Rightarrow> server \<Rightarrow> server" where
  "register now client_id key sv =
     sv\<lparr>active_presses := (active_presses sv)((client_id, key) \<mapsto>
           \<lparr>thread = length (threads sv), stop_event = length (events sv), start_time = now\<rparr>),
        events := events sv @ [False],
        threads := threads sv @
          [\<lparr>t_client = client_id, t_key = key, t_stop_event = length (events sv),
            deregistered = False\<rparr>]\<rparr>"

section \<open>The scheduler as the specification words it\<close>

text \<open>
  The specification describes a session as a machine with three states, moving only
  forward. These definitions follow its words, not the program: \<open>spec_start\<close> is
  ``start(key): the session enters ACTIVE, records start time T0, performs one immediate
  send''; \<open>spec_tick\<close> is one move of the machine. While ACTIVE and not stopped a tick
  computes the elapsed time and goes to STOPPING when it has reached the max-hold time;
  otherwise it waits up to one interval for the cancellation signal (\<open>spec_wait\<close>), goes
  to STOPPING without sending when signalled, and sends once more and stays ACTIVE when
  not. From STOPPING the session goes to TERMINATED and deregisters. The machine reports
  nothing and nothing goes wrong in it.
\<close>

datatype status = ACTIVE | STOPPING | TERMINATED

record session =
  status :: status
  T0 :: rat
  world :: tstate

definition spec_wait :: "rat option \<Rightarrow> rat \<Rightarrow> tstate \<Rightarrow> bool \<times> tstate" where
  "spec_wait stop_at timeout s =
     (case stop_at of
        None \<Rightarrow> (False, s\<lparr>clock := clock s + timeout\<rparr>)
      | Some u \<Rightarrow>
          if u \<le> clock s + timeout then (True, s\<lparr>clock := max (clock s) u\<rparr>)
          else (False, s\<lparr>clock := clock s + timeout\<rparr>))"

definition spec_start :: "args \<Rightarrow> keymap \<Rightarrow> hardware \<Rightarrow> string \<Rightarrow> tstate \<Rightarrow> session" where
  "spec_start a KEYMAP hw key_name s =
     \<lparr>status = ACTIVE, T0 = clock s,
      world = snd (send_scancodes_for_key a KEYMAP hw key_name s)\<rparr>"

definition spec_tick ::
  "args \<Rightarrow> keymap \<Rightarrow> hardware \<Rightarrow> rat option \<Rightarrow> string \<Rightarrow> string \<Rightarrow> session \<Rightarrow> session" where
  "spec_tick a KEYMAP hw stop_at client_id key_name ss =
     (case status ss of
        ACTIVE \<Rightarrow>
          if is_set stop_at (world ss) then ss\<lparr>status := STOPPING\<rparr>
          else if float_le (MAX_HOLD_S a) (Finite (clock (world ss) - T0 ss))
            then ss\<lparr>status := STOPPING\<rparr>
          else
            (case spec_wait stop_at (interval a) (world ss) of
               (True, w) \<Rightarrow> ss\<lparr>status := STOPPING, world := w\<rparr>
             | (False, w) \<Rightarrow>
                 ss\<lparr>world := snd (send_scancodes_for_key a KEYMAP hw key_name w)\<rparr>)
      | STOPPING \<Rightarrow> ss\<lparr>status := TERMINATED, world := pop (client_id, key_name) (world ss)\<rparr>
      | TERMINATED \<Rightarrow> ss)"

text \<open>A thread's state with its printed lines left out, for comparing with the machine.\<close>

fun is_print :: "effect \<Rightarrow> bool" where
  "is_print (Print l) = True"
| "is_print _ = False"

definition silent :: "tstate \<Rightarrow> tstate" where
  "silent s = s\<lparr>effects := filter (\<lambda>e. \<not> is_print (snd e)) (effects s)\<rparr>"

section \<open>Sample configuration\<close>

text \<open>
  The defaults of the command line, a small key table, some transmit tools and some
  platforms, for evaluating the definitions on concrete inputs. \<open>ascii_platform\<close> has a
  standard output that cannot encode the program's Chinese message texts.
\<close>

definition demo_args :: args where
  "demo_args = \<lparr>device = ''/dev/lirc0'', repeat_interval = 100, max_hold = Finite 5\<rparr>"

definition quick_args :: args where
  "quick_args = \<lparr>device = ''/dev/lirc0'', repeat_interval = 100, max_hold = Finite (3 / 10)\<rparr>"

definition huge_args :: args where
  "huge_args = \<lparr>device = ''/dev/lirc0'', repeat_interval = 10000000000000, max_hold = Finite 5\<rparr>"

definition forever_args :: args where
  "forever_args = \<lparr>device = ''/dev/lirc0'', repeat_interval = 100, max_hold = PosInf\<rparr>"

definition demo_platform :: platform where
  "demo_platform = \<lparr>TIMEOUT_MAX = 9223372036, FLOAT_MAX = 2 ^ 1024 - 2 ^ 970 - 1, stdout_accepts = (\<lambda>l. True)\<rparr>"

fun ascii_message :: "message \<Rightarrow> bool" where
  "ascii_message Ir_ctl_not_found = False"
| "ascii_message (Exec_error e) = False"
| "ascii_message _ = True"

fun ascii_line :: "line \<Rightarrow> bool" where
  "ascii_line (Initial_send c k ok msg) = ascii_message msg"
| "ascii_line (Repeat_send c k ok msg) = ascii_message msg"
| "ascii_line _ = True"

definition ascii_platform :: platform where
  "ascii_platform = \<lparr>TIMEOUT_MAX = 9223372036, FLOAT_MAX = 2 ^ 1024 - 2 ^ 970 - 1, stdout_accepts = ascii_line\<rparr>"

definition demo_keymap :: keymap where
  "demo_keymap = [''power'' \<mapsto> JList [''0x40bf''],
                  ''vol_up'' \<mapsto> JList [''0x1'', ''0x2'', ''0x3''],
                  ''mute'' \<mapsto> JList []]"

definition hw_ok :: hardware where
  "hw_ok n cmd = (Completed, 0)"

definition hw_second_fails :: hardware where
  "hw_second_fails n cmd = (if n = 1 then (CalledProcessError 1, 0) else (Completed, 0))"

definition hw_not_executable :: hardware where
  "hw_not_executable n cmd = (PermissionError ''[Errno 13] Permission denied'', 0)"

definition hw_vanishes :: hardware where
  "hw_vanishes n cmd = (if n = 0 then (Completed, 0) else (FileNotFoundError, 0))"

definition hw_slow :: hardware where
  "hw_slow n cmd = (Completed, 2)"

definition hw_broken :: hardware where
  "hw_broken n cmd = (CalledProcessError 1, 0)"

definition fresh :: "rat \<Rightarrow> tstate" where
  "fresh t = \<lparr>clock = t, ncalls = 0, effects = []\<rparr>"


section \<open>The command sender: results\<close>

lemma subprocess_run_simps:
  "fst (subprocess_run hw cmd s) = fst (hw (ncalls s) cmd)"
  "ncalls (snd (subprocess_run hw cmd s)) = Suc (ncalls s)"
  "effects (snd (subprocess_run hw cmd s)) = effects s @ [(clock s, Run_cmd cmd (fst (hw (ncalls s) cmd)))]"
  "clock (snd (subprocess_run hw cmd s)) = clock s + max 0 (snd (hw (ncalls s) cmd))"
  by (simp_all add: subprocess_run_def split: prod.splits)

lemma send_loop_Cons:
  "send_loop a hw (sc # scs) s =
     (case fst (hw (ncalls s) (ir_ctl_cmd a sc)) of
        Completed \<Rightarrow> send_loop a hw scs (snd (subprocess_run hw (ir_ctl_cmd a sc) s))
      | r \<Rightarrow> (failure_message (ir_ctl_cmd a sc) r, snd (subprocess_run hw (ir_ctl_cmd a sc) s)))"
  by (simp add: subprocess_run_def failure_message_def split: prod.splits run_outcome.splits)

lemma send_loop_all_ok:
  "(\<And>i. i < length scs \<Longrightarrow> fst (hw (ncalls s + i) (ir_ctl_cmd a (scs ! i))) = Completed) \<Longrightarrow>
   fst (send_loop a hw scs s) = (True, OK) \<and>
   map snd (effects (snd (send_loop a hw scs s))) =
     map snd (effects s) @ map (\<lambda>sc. Run_cmd (ir_ctl_cmd a sc) Completed) scs \<and>
   ncalls (snd (send_loop a hw scs s)) = ncalls s + length scs"
proof (induction scs arbitrary: s)
  case Nil
  show ?case by simp
next
  case (Cons sc scs)
  let ?s' = "snd (subprocess_run hw (ir_ctl_cmd a sc) s)"
  have h0: "fst (hw (ncalls s) (ir_ctl_cmd a sc)) = Completed"
    using Cons.prems [of 0] by simp
  then have run: "subprocess_run hw (ir_ctl_cmd a sc) s = (Completed, ?s')"
    by (metis subprocess_run_simps(1) prod.collapse)
  have "fst (hw (ncalls ?s' + i) (ir_ctl_cmd a (scs ! i))) = Completed" if "i < length scs" for i
    using Cons.prems [of "Suc i"] that by (simp add: subprocess_run_simps)
  from Cons.IH [OF this] show ?case
    using h0 by (simp add: subprocess_run_simps send_loop_Cons del: send_loop.simps)
qed

lemma send_loop_first_failure:
  "j < length scs \<Longrightarrow>
   (\<And>i. i < j \<Longrightarrow> fst (hw (ncalls s + i) (ir_ctl_cmd a (scs ! i))) = Completed) \<Longrightarrow>
   fst (hw (ncalls s + j) (ir_ctl_cmd a (scs ! j))) = r \<Longrightarrow> r \<noteq> Completed \<Longrightarrow>
   fst (send_loop a hw scs s) = failure_message (ir_ctl_cmd a (scs ! j)) r \<and>
   map snd (effects (snd (send_loop a hw scs s))) =
     map snd (effects s) @ map (\<lambda>sc. Run_cmd (ir_ctl_cmd a sc) Completed) (take j scs)
       @ [Run_cmd (ir_ctl_cmd a (scs ! j)) r] \<and>
   ncalls (snd (send_loop a hw scs s)) = ncalls s + Suc j"
proof (induction scs arbitrary: s j)
  case Nil
  then show ?case by simp
next
  case (Cons sc scs)
  let ?s' = "snd (subprocess_run hw (ir_ctl_cmd a sc) s)"
  have run: "subprocess_run hw (ir_ctl_cmd a sc) s = (fst (hw (ncalls s) (ir_ctl_cmd a sc)), ?s')"
    by (metis subprocess_run_simps(1) prod.collapse)
  show ?case
  proof (cases j)
    case 0
    with Cons.prems have r: "fst (hw (ncalls s) (ir_ctl_cmd a sc)) = r" by simp
    show ?thesis using r \<open>r \<noteq> Completed\<close> 0
      by (cases r) (simp_all add: subprocess_run_simps send_loop_Cons del: send_loop.simps)
  next
    case (Suc j')
    have h0: "fst (hw (ncalls s) (ir_ctl_cmd a sc)) = Completed"
      using Cons.prems(2) [of 0] Suc by simp
    have a1: "j' < length scs" using Cons.prems(1) Suc by simp
    have a2: "fst (hw (ncalls ?s' + i) (ir_ctl_cmd a (scs ! i))) = Completed" if "i < j'" for i
      using Cons.prems(2) [of "Suc i"] that Suc by (simp add: subprocess_run_simps)
    have a3: "fst (hw (ncalls ?s' + j') (ir_ctl_cmd a (scs ! j'))) = r"
      using Cons.prems(3) Suc by (simp add: subprocess_run_simps)
    from Cons.IH [OF a1 a2 a3 \<open>r \<noteq> Completed\<close>] show ?thesis
      using h0 Suc by (simp add: subprocess_run_simps send_loop_Cons del: send_loop.simps)
  qed
qed

text \<open>
  C6: \<^verbatim>\<open>send_scancodes_for_key\<close> answers \<open>Unknown key\<close> for a name that is not in the key
  table and \<open>has no scancodes\<close> for a key whose definition is empty; in both cases the
  thread's state is returned as it was, so no transmit call is made. A click on an
  unknown key answers 500 with that error, and the handler has no effects.
\<close>

theorem send_key_rejects_without_transmitting:
  "(KEYMAP key_name = None \<longrightarrow>
      send_scancodes_for_key a KEYMAP hw key_name s = ((False, Unknown_key key_name), s)) \<and>
   (KEYMAP key_name = Some scs \<and> items scs = [] \<longrightarrow>
      send_scancodes_for_key a KEYMAP hw key_name s = ((False, No_scancodes key_name), s)) \<and>
   (KEYMAP key_name = None \<and> key_name \<noteq> [] \<and> client_id \<noteq> [] \<longrightarrow>
      do_POST a KEYMAP hw now (click_request client_id key_name) sv =
        (Json 500 False (Unknown_key key_name), [], sv))"
  by (simp add: send_scancodes_for_key_def do_POST_def do_action_def click_request_def)

theorem send_key_rejects_without_transmitting_witness:
  "send_scancodes_for_key demo_args demo_keymap hw_ok ''nonexistent_key'' (fresh 0) =
     ((False, Unknown_key ''nonexistent_key''), fresh 0) \<and>
   send_scancodes_for_key demo_args demo_keymap hw_ok ''mute'' (fresh 0) =
     ((False, No_scancodes ''mute''), fresh 0) \<and>
   do_POST demo_args demo_keymap hw_ok 0 (click_request ''c1'' ''nonexistent_key'') init_server =
     (Json 500 False (Unknown_key ''nonexistent_key''), [], init_server)"
  using send_key_rejects_without_transmitting
          [of demo_keymap "''nonexistent_key''" demo_args hw_ok "fresh 0" "JList []" "''c1''" 0 init_server]
        send_key_rejects_without_transmitting
          [of demo_keymap "''mute''" demo_args hw_ok "fresh 0" "JList []" "''c1''" 0 init_server]
  by (simp add: demo_keymap_def)


text \<open>
  C7 (amended): for a key with a non-empty list of scancodes, the transmit calls are
  \<^verbatim>\<open>ir-ctl -d DEVICE --scancode nec:SC\<close> for the scancodes of the list, in its order, one
  per scancode. When all complete the result is \<open>(True, OK)\<close>. When the call for the
  scancode at position \<open>j\<close> is the first that fails, the calls made are those for the
  first \<open>j\<close> scancodes (completed, and left as they are) and the failing one, nothing
  after it; the result is \<open>Command failed\<close> with the command and the exit status for a
  \<^verbatim>\<open>CalledProcessError\<close>, \<open>ir-ctl not found\<close> for a \<^verbatim>\<open>FileNotFoundError\<close> only, and the
  generic execution error with the exception's text for every other exception, among
  them the \<^verbatim>\<open>PermissionError\<close> of a tool that is there and cannot be executed.
\<close>

theorem send_key_transmits_in_order_until_first_failure:
  assumes "KEYMAP key_name = Some (JList scs)" and "scs \<noteq> []"
  shows
  "((\<forall>i < length scs.
       fst (hw (ncalls s + i) [''ir-ctl'', ''-d'', device a, ''--scancode'', ''nec:'' @ scs ! i])
         = Completed) \<longrightarrow>
      fst (send_scancodes_for_key a KEYMAP hw key_name s) = (True, OK) \<and>
      map snd (effects (snd (send_scancodes_for_key a KEYMAP hw key_name s))) =
        map snd (effects s) @
        map (\<lambda>sc. Run_cmd [''ir-ctl'', ''-d'', device a, ''--scancode'', ''nec:'' @ sc] Completed) scs \<and>
      ncalls (snd (send_scancodes_for_key a KEYMAP hw key_name s)) = ncalls s + length scs) \<and>
   (j < length scs \<and>
    (\<forall>i < j.
       fst (hw (ncalls s + i) [''ir-ctl'', ''-d'', device a, ''--scancode'', ''nec:'' @ scs ! i])
         = Completed) \<and>
    fst (hw (ncalls s + j) [''ir-ctl'', ''-d'', device a, ''--scancode'', ''nec:'' @ scs ! j]) = r \<and>
    r \<noteq> Completed \<longrightarrow>
      map snd (effects (snd (send_scancodes_for_key a KEYMAP hw key_name s))) =
        map snd (effects s) @
        map (\<lambda>sc. Run_cmd [''ir-ctl'', ''-d'', device a, ''--scancode'', ''nec:'' @ sc] Completed)
          (take j scs) @
        [Run_cmd [''ir-ctl'', ''-d'', device a, ''--scancode'', ''nec:'' @ scs ! j] r] \<and>
      ncalls (snd (send_scancodes_for_key a KEYMAP hw key_name s)) = ncalls s + Suc j \<and>
      fst (send_scancodes_for_key a KEYMAP hw key_name s) =
        (case r of
           CalledProcessError rc \<Rightarrow>
             (False, Command_failed [''ir-ctl'', ''-d'', device a, ''--scancode'', ''nec:'' @ scs ! j] rc)
         | FileNotFoundError \<Rightarrow> (False, Ir_ctl_not_found)
         | PermissionError e \<Rightarrow> (False, Exec_error e)
         | OtherException e \<Rightarrow> (False, Exec_error e)
         | Completed \<Rightarrow> (True, OK)))"
proof -
  have cmd: "[''ir-ctl'', ''-d'', device a, ''--scancode'', ''nec:'' @ sc] = ir_ctl_cmd a sc" for sc
    by (simp add: ir_ctl_cmd_def IR_DEVICE_def)
  have eq: "send_scancodes_for_key a KEYMAP hw key_name s = send_loop a hw scs s"
    using assms by (simp add: send_scancodes_for_key_def)
  have ok: "fst (send_loop a hw scs s) = (True, OK) \<and>
      map snd (effects (snd (send_loop a hw scs s))) =
        map snd (effects s) @ map (\<lambda>sc. Run_cmd (ir_ctl_cmd a sc) Completed) scs \<and>
      ncalls (snd (send_loop a hw scs s)) = ncalls s + length scs"
    if "\<forall>i < length scs. fst (hw (ncalls s + i) (ir_ctl_cmd a (scs ! i))) = Completed"
    using that by (intro send_loop_all_ok) simp
  have bad: "map snd (effects (snd (send_loop a hw scs s))) =
        map snd (effects s) @ map (\<lambda>sc. Run_cmd (ir_ctl_cmd a sc) Completed) (take j scs)
          @ [Run_cmd (ir_ctl_cmd a (scs ! j)) r] \<and>
      ncalls (snd (send_loop a hw scs s)) = ncalls s + Suc j \<and>
      fst (send_loop a hw scs s) = failure_message (ir_ctl_cmd a (scs ! j)) r"
    if "j < length scs"
      and "\<forall>i < j. fst (hw (ncalls s + i) (ir_ctl_cmd a (scs ! i))) = Completed"
      and "fst (hw (ncalls s + j) (ir_ctl_cmd a (scs ! j))) = r" and "r \<noteq> Completed"
    using send_loop_first_failure [of j scs hw s a r] that by simp
  show ?thesis
    unfolding eq cmd using ok bad by (simp add: failure_message_def)
qed

theorem send_key_transmits_in_order_until_first_failure_witness:
  "fst (send_scancodes_for_key demo_args demo_keymap hw_ok ''vol_up'' (fresh 0)) = (True, OK) \<and>
   map snd (effects (snd (send_scancodes_for_key demo_args demo_keymap hw_ok ''vol_up'' (fresh 0)))) =
     [Run_cmd [''ir-ctl'', ''-d'', ''/dev/lirc0'', ''--scancode'', ''nec:0x1''] Completed,
      Run_cmd [''ir-ctl'', ''-d'', ''/dev/lirc0'', ''--scancode'', ''nec:0x2''] Completed,
      Run_cmd [''ir-ctl'', ''-d'', ''/dev/lirc0'', ''--scancode'', ''nec:0x3''] Completed] \<and>
   fst (send_scancodes_for_key demo_args demo_keymap hw_second_fails ''vol_up'' (fresh 0)) =
     (False, Command_failed [''ir-ctl'', ''-d'', ''/dev/lirc0'', ''--scancode'', ''nec:0x2''] 1) \<and>
   map snd (effects (snd (send_scancodes_for_key demo_args demo_keymap hw_second_fails ''vol_up'' (fresh 0)))) =
     [Run_cmd [''ir-ctl'', ''-d'', ''/dev/lirc0'', ''--scancode'', ''nec:0x1''] Completed,
      Run_cmd [''ir-ctl'', ''-d'', ''/dev/lirc0'', ''--scancode'', ''nec:0x2''] (CalledProcessError 1)]"
proof -
  have k: "demo_keymap ''vol_up'' = Some (JList [''0x1'', ''0x2'', ''0x3''])"
    by (simp add: demo_keymap_def)
  have ne: "[''0x1'', ''0x2'', ''0x3''] \<noteq> ([] :: string list)" by simp
  have all: "\<forall>i < length [''0x1'', ''0x2'', ''0x3''].
      fst (hw_ok (ncalls (fresh 0) + i)
        [''ir-ctl'', ''-d'', device demo_args, ''--scancode'', ''nec:'' @ [''0x1'', ''0x2'', ''0x3''] ! i])
        = Completed"
    by (simp add: hw_ok_def)
  have pre: "\<forall>i < 1. fst (hw_second_fails (ncalls (fresh 0) + i)
      [''ir-ctl'', ''-d'', device demo_args, ''--scancode'', ''nec:'' @ [''0x1'', ''0x2'', ''0x3''] ! i])
      = Completed"
    by (simp add: hw_second_fails_def fresh_def)
  have at: "fst (hw_second_fails (ncalls (fresh 0) + 1)
      [''ir-ctl'', ''-d'', device demo_args, ''--scancode'', ''nec:'' @ [''0x1'', ''0x2'', ''0x3''] ! 1])
      = CalledProcessError 1"
    by (simp add: hw_second_fails_def fresh_def)
  show ?thesis
    using send_key_transmits_in_order_until_first_failure
            [where KEYMAP = demo_keymap and key_name = "''vol_up''" and a = demo_args
               and scs = "[''0x1'', ''0x2'', ''0x3'']" and hw = hw_ok and s = "fresh 0"
               and j = 0 and r = Completed, OF k ne] all
          send_key_transmits_in_order_until_first_failure
            [where KEYMAP = demo_keymap and key_name = "''vol_up''" and a = demo_args
               and scs = "[''0x1'', ''0x2'', ''0x3'']" and hw = hw_second_fails and s = "fresh 0"
               and j = 1 and r = "CalledProcessError 1", OF k ne] pre at
    by (simp add: fresh_def demo_args_def)
qed

text \<open>
  A transmit tool that is found and is not executable: \<^verbatim>\<open>subprocess.run\<close> raises
  \<^verbatim>\<open>PermissionError\<close>, the mechanism cannot be invoked, and the result is the generic
  execution error, not \<open>ir-ctl not found\<close>.
\<close>

theorem not_executable_is_not_tool_missing:
  "send_scancodes_for_key demo_args demo_keymap hw_not_executable ''power'' (fresh 0) =
     ((False, Exec_error ''[Errno 13] Permission denied''),
      \<lparr>clock = 0, ncalls = 1,
       effects = [(0, Run_cmd [''ir-ctl'', ''-d'', ''/dev/lirc0'', ''--scancode'', ''nec:0x40bf'']
                        (PermissionError ''[Errno 13] Permission denied''))]\<rparr>) \<and>
   fst (send_scancodes_for_key demo_args demo_keymap hw_not_executable ''power'' (fresh 0)) \<noteq>
     (False, Ir_ctl_not_found)"
  by (simp add: send_scancodes_for_key_def demo_keymap_def demo_args_def hw_not_executable_def
      fresh_def subprocess_run_def ir_ctl_cmd_def IR_DEVICE_def)


section \<open>The press thread: results\<close>

lemma repeat_loop_pass:
  "repeat_loop p a KEYMAP hw stop_at client_id key_name start s =
     (case loop_pass p a KEYMAP hw stop_at client_id key_name start s of
        Inl r \<Rightarrow> Some r
      | Inr s3 \<Rightarrow> repeat_loop p a KEYMAP hw stop_at client_id key_name start s3)"
  by (subst repeat_loop.simps) (simp add: loop_pass_def split: sum.splits prod.splits)

lemma repeat_loop_partial [consumes 1, case_names ends again]:
  assumes "repeat_loop p a KEYMAP hw stop_at client_id key_name start s = Some r"
    and ends: "\<And>s r. loop_pass p a KEYMAP hw stop_at client_id key_name start s = Inl r \<Longrightarrow> Q s r"
    and again: "\<And>s s3 r. loop_pass p a KEYMAP hw stop_at client_id key_name start s = Inr s3 \<Longrightarrow>
                  Q s3 r \<Longrightarrow> Q s r"
  shows "Q s r"
proof -
  let ?P = "\<lambda>p' a' KEYMAP' hw' stop_at' client_id' key_name' start' s r.
      p' = p \<and> a' = a \<and> KEYMAP' = KEYMAP \<and> hw' = hw \<and> stop_at' = stop_at \<and>
      client_id' = client_id \<and> key_name' = key_name \<and> start' = start \<longrightarrow> Q s r"
  have "?P p a KEYMAP hw stop_at client_id key_name start s r"
  proof (rule repeat_loop.raw_induct [where P = ?P, OF _ assms(1)], goal_cases)
    case (1 f p' a' KEYMAP' hw' stop_at' client_id' key_name' start' s r)
    show ?case
    proof (intro impI, elim conjE)
      assume e: "p' = p" "a' = a" "KEYMAP' = KEYMAP" "hw' = hw" "stop_at' = stop_at"
        "client_id' = client_id" "key_name' = key_name" "start' = start"
      have "(if is_set stop_at s then Some (Inr s)
          else if float_le (MAX_HOLD_S a) (Finite (clock s - start))
            then Some (print p (Reached_max_hold client_id key_name (MAX_HOLD_S a)) s)
          else
            (case wait p stop_at (interval a) s of
               Inl e \<Rightarrow> Some (Inl e)
             | Inr (signalled, s1) \<Rightarrow>
                 if signalled then Some (Inr s1)
                 else
                   (case send_scancodes_for_key a KEYMAP hw key_name s1 of
                      ((ok, msg), s2) \<Rightarrow>
                        (case print p (Repeat_send client_id key_name ok msg) s2 of
                           Inl e \<Rightarrow> Some (Inl e)
                         | Inr s3 \<Rightarrow> f p a KEYMAP hw stop_at client_id key_name start s3)))) =
         (case loop_pass p a KEYMAP hw stop_at client_id key_name start s of
            Inl r \<Rightarrow> Some r
          | Inr s3 \<Rightarrow> f p a KEYMAP hw stop_at client_id key_name start s3)"
        by (simp add: loop_pass_def split: sum.splits prod.splits)
      with 1(2) have body:
        "(case loop_pass p a KEYMAP hw stop_at client_id key_name start s of
            Inl r \<Rightarrow> Some r
          | Inr s3 \<Rightarrow> f p a KEYMAP hw stop_at client_id key_name start s3) = Some r"
        unfolding e by simp
      show "Q s r"
      proof (cases "loop_pass p a KEYMAP hw stop_at client_id key_name start s")
        case (Inl r')
        with body have "r' = r" by simp
        with Inl show ?thesis using ends by simp
      next
        case (Inr s3)
        with body have "f p a KEYMAP hw stop_at client_id key_name start s3 = Some r" by simp
        from 1(1) [OF this] have "Q s3 r" by simp
        with Inr show ?thesis using again by blast
      qed
    qed
  qed
  then show ?thesis by simp
qed

lemma interval_pos: "0 < interval a"
  by (simp add: interval_def REPEAT_INTERVAL_MS_def)

lemma send_loop_clock:
  "clock s \<le> clock (snd (send_loop a hw scs s))"
proof (induction scs arbitrary: s)
  case Nil
  show ?case by simp
next
  case (Cons sc scs)
  let ?s' = "snd (subprocess_run hw (ir_ctl_cmd a sc) s)"
  have "clock s \<le> clock ?s'" by (simp add: subprocess_run_simps)
  also have "clock ?s' \<le> clock (snd (send_loop a hw scs ?s'))" by (rule Cons.IH)
  finally show ?case
    by (simp add: subprocess_run_simps send_loop_Cons del: send_loop.simps split: run_outcome.splits)
qed


lemma send_loop_effects:
  "\<exists>pre. effects (snd (send_loop a hw scs s)) = effects s @ pre \<and> filter (is_pop \<circ> snd) pre = []"
proof (induction scs arbitrary: s)
  case Nil
  show ?case by simp
next
  case (Cons sc scs)
  let ?s' = "snd (subprocess_run hw (ir_ctl_cmd a sc) s)"
  let ?e = "(clock s, Run_cmd (ir_ctl_cmd a sc) (fst (hw (ncalls s) (ir_ctl_cmd a sc))))"
  have e: "effects ?s' = effects s @ [?e]" by (simp add: subprocess_run_simps)
  obtain pre where pre: "effects (snd (send_loop a hw scs ?s')) = effects ?s' @ pre"
      "filter (is_pop \<circ> snd) pre = []"
    using Cons.IH [of ?s'] by blast
  have "snd (send_loop a hw (sc # scs) s) = snd (send_loop a hw scs ?s') \<or>
        snd (send_loop a hw (sc # scs) s) = ?s'"
    by (simp add: send_loop_Cons del: send_loop.simps split: run_outcome.splits)
  then show ?case
  proof
    assume "snd (send_loop a hw (sc # scs) s) = snd (send_loop a hw scs ?s')"
    then have "effects (snd (send_loop a hw (sc # scs) s)) = effects s @ (?e # pre)"
      using pre e by simp
    moreover have "filter (is_pop \<circ> snd) (?e # pre) = []" using pre by simp
    ultimately show ?thesis by blast
  next
    assume "snd (send_loop a hw (sc # scs) s) = ?s'"
    then have "effects (snd (send_loop a hw (sc # scs) s)) = effects s @ [?e]"
      using e by simp
    moreover have "filter (is_pop \<circ> snd) [?e] = []" by simp
    ultimately show ?thesis by blast
  qed
qed

lemma send_scancodes_eq:
  "send_scancodes_for_key a KEYMAP hw key_name s =
     (if scancodes KEYMAP key_name = []
      then ((False, if KEYMAP key_name = None then Unknown_key key_name else No_scancodes key_name), s)
      else send_loop a hw (scancodes KEYMAP key_name) s)"
proof (cases "KEYMAP key_name")
  case None
  then show ?thesis by (simp add: send_scancodes_for_key_def scancodes_def)
next
  case (Some scs)
  then show ?thesis by (cases scs) (simp_all add: send_scancodes_for_key_def scancodes_def)
qed

lemma send_clock: "clock s \<le> clock (snd (send_scancodes_for_key a KEYMAP hw key_name s))"
  by (simp add: send_scancodes_eq send_loop_clock)


lemma send_effects:
  "\<exists>pre. effects (snd (send_scancodes_for_key a KEYMAP hw key_name s)) = effects s @ pre \<and>
         filter (is_pop \<circ> snd) pre = []"
  using send_loop_effects [of a hw "scancodes KEYMAP key_name" s]
  by (simp add: send_scancodes_eq)


lemma max_hold_cases:
  "MAX_HOLD_S a = PosInf \<or> (\<exists>m. MAX_HOLD_S a = Finite m \<and> 1 / 10 \<le> m)"
proof (cases "float_lt (Finite (1 / 10)) (max_hold a)")
  case True
  then show ?thesis by (cases "max_hold a") (auto simp: MAX_HOLD_S_def float_lt_def)
next
  case False
  then have "MAX_HOLD_S a = Finite (1 / 10) \<and> (1::rat) / 10 \<le> 1 / 10"
    by (simp add: MAX_HOLD_S_def)
  then show ?thesis by blast
qed

lemma print_unfold:
  "print p l s = (if stdout_accepts p l then Inr (s\<lparr>effects := effects s @ [(clock s, Print l)]\<rparr>)
                  else Inl (UnicodeEncodeError, s))"
  by (simp add: print_def)

lemma state_of_print:
  "clock (state_of (print p l s)) = clock s"
  "ncalls (state_of (print p l s)) = ncalls s"
  "\<exists>pre. effects (state_of (print p l s)) = effects s @ pre \<and> filter (is_pop \<circ> snd) pre = []"
  by (simp_all add: print_def)

text \<open>What a pass that goes round again has done.\<close>

lemma loop_pass_again:
  assumes "loop_pass p a KEYMAP hw stop_at client_id key_name start s = Inr s3"
  shows "\<not> is_set stop_at s"
    and "\<not> float_le (MAX_HOLD_S a) (Finite (clock s - start))"
    and "interval a \<le> TIMEOUT_MAX p"
    and "stop_at = Some u \<Longrightarrow> clock s + interval a < u"
    and "stdout_accepts p (Repeat_send client_id key_name
           (fst (fst (send_scancodes_for_key a KEYMAP hw key_name (s\<lparr>clock := clock s + interval a\<rparr>))))
           (snd (fst (send_scancodes_for_key a KEYMAP hw key_name (s\<lparr>clock := clock s + interval a\<rparr>)))))"
    and "s3 = (snd (send_scancodes_for_key a KEYMAP hw key_name (s\<lparr>clock := clock s + interval a\<rparr>)))
           \<lparr>effects :=
              effects (snd (send_scancodes_for_key a KEYMAP hw key_name (s\<lparr>clock := clock s + interval a\<rparr>)))
              @ [(clock (snd (send_scancodes_for_key a KEYMAP hw key_name (s\<lparr>clock := clock s + interval a\<rparr>))),
                  Print (Repeat_send client_id key_name
                    (fst (fst (send_scancodes_for_key a KEYMAP hw key_name (s\<lparr>clock := clock s + interval a\<rparr>))))
                    (snd (fst (send_scancodes_for_key a KEYMAP hw key_name (s\<lparr>clock := clock s + interval a\<rparr>))))))]\<rparr>"
  using assms
  by (auto simp: loop_pass_def wait_def print_def is_set_def
      split: if_splits sum.splits prod.splits option.splits)

text \<open>The ways in which a pass ends the loop.\<close>

lemma loop_pass_ends:
  assumes "loop_pass p a KEYMAP hw stop_at client_id key_name start s = Inl r"
  shows "(is_set stop_at s \<and> r = Inr s) \<or>
     (\<not> is_set stop_at s \<and> float_le (MAX_HOLD_S a) (Finite (clock s - start)) \<and>
        r = print p (Reached_max_hold client_id key_name (MAX_HOLD_S a)) s) \<or>
     (\<not> is_set stop_at s \<and> \<not> float_le (MAX_HOLD_S a) (Finite (clock s - start)) \<and>
        TIMEOUT_MAX p < interval a \<and> r = Inl (OverflowError, s)) \<or>
     (\<not> float_le (MAX_HOLD_S a) (Finite (clock s - start)) \<and> interval a \<le> TIMEOUT_MAX p \<and>
        (\<exists>u. stop_at = Some u \<and> clock s < u \<and> u \<le> clock s + interval a \<and>
             r = Inr (s\<lparr>clock := u\<rparr>))) \<or>
     (\<not> is_set stop_at s \<and> \<not> float_le (MAX_HOLD_S a) (Finite (clock s - start)) \<and>
        interval a \<le> TIMEOUT_MAX p \<and> (\<forall>u. stop_at = Some u \<longrightarrow> clock s + interval a < u) \<and>
        \<not> stdout_accepts p (Repeat_send client_id key_name
           (fst (fst (send_scancodes_for_key a KEYMAP hw key_name (s\<lparr>clock := clock s + interval a\<rparr>))))
           (snd (fst (send_scancodes_for_key a KEYMAP hw key_name (s\<lparr>clock := clock s + interval a\<rparr>))))) \<and>
        r = Inl (UnicodeEncodeError,
                 snd (send_scancodes_for_key a KEYMAP hw key_name (s\<lparr>clock := clock s + interval a\<rparr>))))"
  using assms
  by (auto simp: loop_pass_def wait_def print_def is_set_def
      split: if_splits sum.splits prod.splits option.splits)

lemma loop_pass_again_clock:
  assumes "loop_pass p a KEYMAP hw stop_at client_id key_name start s = Inr s3"
  shows "clock s + interval a \<le> clock s3"
  using loop_pass_again(6) [OF assms]
    send_clock [of "s\<lparr>clock := clock s + interval a\<rparr>" a KEYMAP hw key_name]
  by simp


lemma loop_pass_again_effects:
  assumes "loop_pass p a KEYMAP hw stop_at client_id key_name start s = Inr s3"
  shows "\<exists>pre. effects s3 = effects s @ pre \<and> filter (is_pop \<circ> snd) pre = []"
proof -
  let ?R = "send_scancodes_for_key a KEYMAP hw key_name (s\<lparr>clock := clock s + interval a\<rparr>)"
  have "\<exists>pre. effects (snd ?R) = effects s @ pre \<and> filter (is_pop \<circ> snd) pre = []"
    using send_effects [of a KEYMAP hw key_name "s\<lparr>clock := clock s + interval a\<rparr>"] by simp
  then obtain pre where pre: "effects (snd ?R) = effects s @ pre" "filter (is_pop \<circ> snd) pre = []"
    by blast
  have "effects s3 = effects s @ (pre @ [(clock (snd ?R),
      Print (Repeat_send client_id key_name (fst (fst ?R)) (snd (fst ?R))))])"
    using loop_pass_again(6) [OF assms] pre by simp
  moreover have "filter (is_pop \<circ> snd) (pre @ [(clock (snd ?R),
      Print (Repeat_send client_id key_name (fst (fst ?R)) (snd (fst ?R))))]) = []"
    using pre by simp
  ultimately show ?thesis by blast
qed

lemma loop_pass_ends_effects:
  assumes "loop_pass p a KEYMAP hw stop_at client_id key_name start s = Inl r"
  shows "\<exists>pre. effects (state_of r) = effects s @ pre \<and> filter (is_pop \<circ> snd) pre = []"
  using loop_pass_ends [OF assms]
    send_effects [of a KEYMAP hw key_name "s\<lparr>clock := clock s + interval a\<rparr>"]
  by (auto simp: print_def)

lemma loop_pass_ends_clock:
  assumes "loop_pass p a KEYMAP hw stop_at client_id key_name start s = Inl r"
  shows "clock s \<le> clock (state_of r)"
  using loop_pass_ends [OF assms] interval_pos [of a]
    send_clock [of "s\<lparr>clock := clock s + interval a\<rparr>" a KEYMAP hw key_name]
  by (auto simp: print_def)

lemma repeat_loop_effects:
  assumes "repeat_loop p a KEYMAP hw stop_at client_id key_name start s = Some r"
  shows "\<exists>pre. effects (state_of r) = effects s @ pre \<and> filter (is_pop \<circ> snd) pre = []"
  using assms
proof (induction rule: repeat_loop_partial)
  case (ends s r)
  then show ?case by (rule loop_pass_ends_effects)
next
  case (again s s3 r)
  obtain p1 where p1: "effects s3 = effects s @ p1" "filter (is_pop \<circ> snd) p1 = []"
    using loop_pass_again_effects [OF again(1)] by blast
  obtain p2 where p2: "effects (state_of r) = effects s3 @ p2" "filter (is_pop \<circ> snd) p2 = []"
    using again(2) by blast
  have "effects (state_of r) = effects s @ (p1 @ p2)" using p1 p2 by simp
  moreover have "filter (is_pop \<circ> snd) (p1 @ p2) = []" using p1 p2 by simp
  ultimately show ?case by blast
qed

lemma repeat_loop_clock:
  assumes "repeat_loop p a KEYMAP hw stop_at client_id key_name start s = Some r"
  shows "clock s \<le> clock (state_of r)"
  using assms
proof (induction rule: repeat_loop_partial)
  case (ends s r)
  then show ?case by (rule loop_pass_ends_clock)
next
  case (again s s3 r)
  then show ?case using loop_pass_again_clock [OF again(1)] interval_pos [of a] by simp
qed

lemma repeat_loop_exit:
  assumes "repeat_loop p a KEYMAP hw stop_at client_id key_name start s = Some r"
  shows "r = Inr s' \<longrightarrow>
     is_set stop_at s' \<or> float_le (MAX_HOLD_S a) (Finite (clock s' - start))"
  using assms
proof (induction rule: repeat_loop_partial)
  case (ends s r)
  from loop_pass_ends [OF this] show ?case
    by (auto simp: print_def is_set_def split: if_splits)
next
  case (again s s3 r)
  then show ?case by simp
qed

lemma repeat_loop_no_raise:
  assumes "repeat_loop p a KEYMAP hw stop_at client_id key_name start s = Some r"
    and "undisturbed p a"
  shows "\<exists>s'. r = Inr s'"
  using assms(1)
proof (induction rule: repeat_loop_partial)
  case (ends s r)
  from loop_pass_ends [OF this] assms(2) show ?case
    by (auto simp: print_def undisturbed_def)
next
  case (again s s3 r)
  then show ?case by simp
qed

text \<open>Termination: a stop signal or a finite maximum hold time bounds the number of passes.\<close>

lemma pass_measure:
  fixes L c c3 i :: rat
  assumes "0 < i" "c < L" "c + i \<le> c3"
  shows "nat \<lceil>(L - c3) / i\<rceil> < nat \<lceil>(L - c) / i\<rceil>"
proof -
  have "(L - c3) / i \<le> (L - (c + i)) / i"
    using assms by (simp add: divide_right_mono)
  also have "\<dots> = (L - c) / i - 1"
    using assms by (simp add: field_simps)
  finally have "\<lceil>(L - c3) / i\<rceil> \<le> \<lceil>(L - c) / i - 1\<rceil>"
    by (rule ceiling_mono)
  then have le: "\<lceil>(L - c3) / i\<rceil> \<le> \<lceil>(L - c) / i\<rceil> - 1" by simp
  have "0 < (L - c) / i" using assms by simp
  then have "0 < \<lceil>(L - c) / i\<rceil>" by simp
  with le show ?thesis by linarith
qed

lemma repeat_loop_terminates:
  assumes "stop_at \<noteq> None \<or> MAX_HOLD_S a \<noteq> PosInf"
  shows "\<exists>r. repeat_loop p a KEYMAP hw stop_at client_id key_name start s = Some r"
proof -
  obtain L where L: "\<And>s s3. loop_pass p a KEYMAP hw stop_at client_id key_name start s = Inr s3
       \<Longrightarrow> clock s < L"
  proof (cases stop_at)
    case (Some u)
    have "clock s < u" if "loop_pass p a KEYMAP hw stop_at client_id key_name start s = Inr s3" for s s3
      using loop_pass_again(4) [OF that Some] interval_pos [of a] by simp
    then show ?thesis using that by blast
  next
    case None
    with assms max_hold_cases [of a] obtain m where m: "MAX_HOLD_S a = Finite m" by auto
    have "clock s < start + m"
      if "loop_pass p a KEYMAP hw stop_at client_id key_name start s = Inr s3" for s s3
      using loop_pass_again(2) [OF that] m by simp
    then show ?thesis using that by blast
  qed
  show ?thesis
  proof (induction s rule: measure_induct_rule [where f = "\<lambda>s. nat \<lceil>(L - clock s) / interval a\<rceil>"])
    case (less s)
    show ?case
    proof (cases "loop_pass p a KEYMAP hw stop_at client_id key_name start s")
      case (Inl r)
      then show ?thesis by (subst repeat_loop_pass) simp
    next
      case (Inr s3)
      have "nat \<lceil>(L - clock s3) / interval a\<rceil> < nat \<lceil>(L - clock s) / interval a\<rceil>"
        using pass_measure [OF interval_pos L [OF Inr] loop_pass_again_clock [OF Inr]] .
      from less [OF this] obtain r where
        "repeat_loop p a KEYMAP hw stop_at client_id key_name start s3 = Some r" by blast
      then show ?thesis using Inr by (subst repeat_loop_pass) simp
    qed
  qed
qed

text \<open>Without a stop signal and with an infinite maximum hold time the loop never ends,
  unless an exception ends it.\<close>

lemma repeat_loop_forever:
  assumes "repeat_loop p a KEYMAP hw None client_id key_name start s = Some r"
    and "MAX_HOLD_S a = PosInf"
  shows "\<exists>e. r = Inl e"
  using assms(1)
proof (induction rule: repeat_loop_partial)
  case (ends s r)
  from loop_pass_ends [OF this] assms(2) show ?case
    by (auto simp: is_set_def)
next
  case (again s s3 r)
  then show ?case by simp
qed



lemma pop_simps:
  "clock (pop k s) = clock s" "ncalls (pop k s) = ncalls s"
  "effects (pop k s) = effects s @ [(clock s, Pop k)]"
  by (simp_all add: pop_def)

text \<open>The thread, when it returns normally, has run the loop from the state after the
  initial send and its report, and then removed its entry and printed the exit line.\<close>

lemma thread_result:
  assumes "repeat_thread_func p a KEYMAP hw stop_at client_id key_name s = Some (Inr s')"
  shows "\<exists>s2 s3. clock s \<le> clock s2 \<and>
     clock s2 = clock (snd (send_scancodes_for_key a KEYMAP hw key_name s)) \<and>
     (\<exists>pre. effects s2 = effects s @ pre \<and> filter (is_pop \<circ> snd) pre = []) \<and>
     repeat_loop p a KEYMAP hw stop_at client_id key_name (clock s) s2 = Some (Inr s3) \<and>
     s' = s3\<lparr>effects := effects s3 @ [(clock s3, Pop (client_id, key_name)),
                                       (clock s3, Print (Thread_exit client_id key_name))]\<rparr>"
proof -
  obtain ok msg s1 where r: "send_scancodes_for_key a KEYMAP hw key_name s = ((ok, msg), s1)"
    by (metis prod.collapse)
  define s2 where "s2 = s1\<lparr>effects := effects s1 @ [(clock s1, Print (Initial_send client_id key_name ok msg))]\<rparr>"
  have c1: "clock s \<le> clock s1" using send_clock [of s a KEYMAP hw key_name] r by simp
  have "\<exists>pre. effects s1 = effects s @ pre \<and> filter (is_pop \<circ> snd) pre = []"
    using send_effects [of a KEYMAP hw key_name s] r by simp
  then obtain pre where pre: "effects s1 = effects s @ pre" "filter (is_pop \<circ> snd) pre = []"
    by blast
  have e2: "effects s2 = effects s @ (pre @ [(clock s1, Print (Initial_send client_id key_name ok msg))])"
    "filter (is_pop \<circ> snd) (pre @ [(clock s1, Print (Initial_send client_id key_name ok msg))]) = []"
    using pre by (simp_all add: s2_def)
  from assms r obtain s3 where
    l: "repeat_loop p a KEYMAP hw stop_at client_id key_name (clock s) s2 = Some (Inr s3)"
    and s': "print p (Thread_exit client_id key_name) (pop (client_id, key_name) s3) = Inr s'"
    by (auto simp: repeat_thread_func_def Let_def print_unfold s2_def
        split: if_splits option.splits sum.splits)
  from s' have "s' = s3\<lparr>effects := effects s3 @ [(clock s3, Pop (client_id, key_name)),
                                       (clock s3, Print (Thread_exit client_id key_name))]\<rparr>"
    by (auto simp: print_unfold pop_def split: if_splits)
  with l c1 e2 r show ?thesis
    by (intro exI [of _ s2] exI [of _ s3]) (auto simp: s2_def)
qed

lemma thread_returns:
  assumes "undisturbed p a" and "stop_at \<noteq> None \<or> MAX_HOLD_S a \<noteq> PosInf"
  shows "\<exists>s'. repeat_thread_func p a KEYMAP hw stop_at client_id key_name s = Some (Inr s')"
proof -
  obtain ok msg s1 where r: "send_scancodes_for_key a KEYMAP hw key_name s = ((ok, msg), s1)"
    by (metis prod.collapse)
  define s2 where "s2 = s1\<lparr>effects := effects s1 @ [(clock s1, Print (Initial_send client_id key_name ok msg))]\<rparr>"
  obtain r2 where r2: "repeat_loop p a KEYMAP hw stop_at client_id key_name (clock s) s2 = Some r2"
    using repeat_loop_terminates [OF assms(2)] by blast
  obtain s3 where s3: "r2 = Inr s3"
    using repeat_loop_no_raise [OF r2 assms(1)] by blast
  show ?thesis
    using r r2 s3 assms(1)
    by (simp add: repeat_thread_func_def Let_def print_unfold undisturbed_def s2_def)
qed


text \<open>The definitions that an evaluation of the thread on a concrete input unfolds.\<close>

lemmas run_defs =
  repeat_thread_func_def loop_pass_def wait_def print_def pop_def is_set_def
  send_scancodes_for_key_def subprocess_run_def ir_ctl_cmd_def IR_DEVICE_def
  interval_def MAX_HOLD_S_def REPEAT_INTERVAL_MS_def float_lt_def
  demo_keymap_def demo_args_def quick_args_def huge_args_def demo_platform_def ascii_platform_def
  hw_ok_def hw_slow_def hw_vanishes_def hw_not_executable_def hw_broken_def fresh_def



text \<open>
  With \<^verbatim>\<open>--max-hold inf\<close> the max-hold test never succeeds: a session that is not
  stopped, and that no exception ends, never returns and never deregisters.
\<close>

theorem infinite_max_hold_never_releases:
  assumes "REPEAT_INTERVAL_MS a \<le> FLOAT_MAX p" and "interval a \<le> TIMEOUT_MAX p"
    and "\<forall>l. stdout_accepts p l"
    and "max_hold a = PosInf"
  shows "MAX_HOLD_S a = PosInf \<and>
    repeat_thread_func p a KEYMAP hw None client_id key_name s = None"
proof -
  have m: "MAX_HOLD_S a = PosInf" using assms(4) by (simp add: MAX_HOLD_S_def float_lt_def)
  have u: "undisturbed p a" using assms(1-3) by (simp add: undisturbed_def)
  have l: "repeat_loop p a KEYMAP hw None client_id key_name start s2 = None" for start s2
  proof (cases "repeat_loop p a KEYMAP hw None client_id key_name start s2")
    case (Some r)
    from repeat_loop_forever [OF Some m] repeat_loop_no_raise [OF Some u]
    show ?thesis by auto
  qed simp
  show ?thesis
    using m l assms(1,3)
    by (simp add: repeat_thread_func_def Let_def print_unfold split: prod.splits)
qed

theorem infinite_max_hold_never_releases_witness:
  "REPEAT_INTERVAL_MS forever_args \<le> FLOAT_MAX demo_platform \<and>
   interval forever_args \<le> TIMEOUT_MAX demo_platform \<and>
   (\<forall>l. stdout_accepts demo_platform l) \<and>
   max_hold forever_args = PosInf \<and>
   MAX_HOLD_S forever_args = PosInf \<and>
   repeat_thread_func demo_platform forever_args demo_keymap hw_ok None ''c1'' ''power'' (fresh 0) = None"
proof -
  have p: "REPEAT_INTERVAL_MS forever_args \<le> FLOAT_MAX demo_platform"
    "interval forever_args \<le> TIMEOUT_MAX demo_platform"
    "\<forall>l. stdout_accepts demo_platform l"
    "max_hold forever_args = PosInf"
    by (simp_all add: REPEAT_INTERVAL_MS_def interval_def forever_args_def demo_platform_def)
  show ?thesis
    using infinite_max_hold_never_releases [OF p, of demo_keymap hw_ok "''c1''" "''power''" "fresh 0"] p
    by simp
qed

text \<open>
  C2: the thread does not follow the scheduler when the interval is more than the
  longest timeout of the platform. With \<^verbatim>\<open>--repeat-interval 10000000000000\<close> (an
  interval of ten thousand million seconds) the first wait raises \<^verbatim>\<open>OverflowError\<close>, which nothing
  catches: the thread ends after the initial send and its report, with the session not
  stopped and no time elapsed, and without removing its entry.
\<close>

theorem huge_interval_ends_thread_at_first_wait:
  "interval huge_args = 10000000000 \<and> TIMEOUT_MAX demo_platform = 9223372036 \<and>
   repeat_thread_func demo_platform huge_args demo_keymap hw_ok None ''c1'' ''power'' (fresh 0) =
     Some (Inl (OverflowError, \<lparr>clock = 0, ncalls = 1,
       effects =
         [(0, Run_cmd [''ir-ctl'', ''-d'', ''/dev/lirc0'', ''--scancode'', ''nec:0x40bf''] Completed),
          (0, Print (Initial_send ''c1'' ''power'' True OK))]\<rparr>))"
  by (simp add: run_defs repeat_loop_pass)

text \<open>
  C5: an exit of the thread that does not remove the entry. The transmit tool cannot be
  executed, so the initial send fails with the generic execution error, whose text begins with
  Chinese words; the standard output cannot encode them, \<^verbatim>\<open>print\<close> raises \<^verbatim>\<open>UnicodeEncodeError\<close>, nothing catches it,
  and the thread ends with its entry still in the registry.
\<close>

theorem unprintable_report_skips_deregistration:
  "repeat_thread_func ascii_platform demo_args demo_keymap hw_not_executable None
       ''c1'' ''power'' (fresh 0) =
     Some (Inl (UnicodeEncodeError, \<lparr>clock = 0, ncalls = 1,
       effects =
         [(0, Run_cmd [''ir-ctl'', ''-d'', ''/dev/lirc0'', ''--scancode'', ''nec:0x40bf'']
                (PermissionError ''[Errno 13] Permission denied''))]\<rparr>))"
  by (simp add: run_defs repeat_loop_pass)

text \<open>
  C8: a failed send inside the loop that ends the session. The transmit tool is there for
  the initial send and gone at the first repeat, which fails with \<open>ir-ctl not found\<close>, a
  message with Chinese words in it; the standard output cannot encode them, \<^verbatim>\<open>print\<close>
  raises \<^verbatim>\<open>UnicodeEncodeError\<close>, and the thread ends at 0.1 s, neither stopped nor at
  the max-hold time of 5 s, with no further tick and with its entry still in the
  registry.
\<close>

theorem failed_repeat_send_ends_session:
  "MAX_HOLD_S demo_args = Finite 5 \<and>
   repeat_thread_func ascii_platform demo_args demo_keymap hw_vanishes None ''c1'' ''power'' (fresh 0) =
     Some (Inl (UnicodeEncodeError, \<lparr>clock = 1 / 10, ncalls = 2,
       effects =
         [(0, Run_cmd [''ir-ctl'', ''-d'', ''/dev/lirc0'', ''--scancode'', ''nec:0x40bf''] Completed),
          (0, Print (Initial_send ''c1'' ''power'' True OK)),
          (1 / 10, Run_cmd [''ir-ctl'', ''-d'', ''/dev/lirc0'', ''--scancode'', ''nec:0x40bf'']
                     FileNotFoundError)]\<rparr>))"
  by (simp add: run_defs repeat_loop_pass)


section \<open>The press thread and the specification's scheduler\<close>

lemma silent_simps [simp]:
  "clock (silent s) = clock s" "ncalls (silent s) = ncalls s"
  "silent (s\<lparr>effects := effects s @ [(t, Print l)]\<rparr>) = silent s"
  "silent (pop k s) = pop k (silent s)"
  "silent (s\<lparr>clock := t\<rparr>) = (silent s)\<lparr>clock := t\<rparr>"
  "is_set stop_at (silent s) = is_set stop_at s"
  by (simp_all add: silent_def pop_def is_set_def split: option.splits)

lemma silent_subprocess_run:
  "subprocess_run hw cmd (silent s) =
     (fst (subprocess_run hw cmd s), silent (snd (subprocess_run hw cmd s)))"
  by (simp add: subprocess_run_def silent_def split: prod.splits)

lemma silent_send_loop:
  "send_loop a hw scs (silent s) = (fst (send_loop a hw scs s), silent (snd (send_loop a hw scs s)))"
proof (induction scs arbitrary: s)
  case Nil
  show ?case by simp
next
  case (Cons sc scs)
  have n: "ncalls (silent s) = ncalls s" by simp
  have r: "snd (subprocess_run hw (ir_ctl_cmd a sc) (silent s)) =
            silent (snd (subprocess_run hw (ir_ctl_cmd a sc) s))"
    by (simp add: silent_subprocess_run)
  show ?case
    unfolding send_loop_Cons n r using Cons.IH
    by (simp split: run_outcome.splits)
qed

lemma silent_send:
  "send_scancodes_for_key a KEYMAP hw key_name (silent s) =
     (fst (send_scancodes_for_key a KEYMAP hw key_name s),
      silent (snd (send_scancodes_for_key a KEYMAP hw key_name s)))"
  by (simp add: send_scancodes_for_key_def silent_send_loop split: option.splits)

text \<open>The loop, when it returns, has made the moves of the specification's machine from
  ACTIVE to STOPPING.\<close>

lemma spec_loop:
  assumes "repeat_loop p a KEYMAP hw stop_at client_id key_name start s = Some r"
  shows "r = Inr s' \<longrightarrow>
    (\<exists>n. (spec_tick a KEYMAP hw stop_at client_id key_name ^^ n)
          \<lparr>status = ACTIVE, T0 = start, world = silent s\<rparr> =
        \<lparr>status = STOPPING, T0 = start, world = silent s'\<rparr>)"
  using assms
proof (induction rule: repeat_loop_partial)
  case (ends s r)
  let ?T = "spec_tick a KEYMAP hw stop_at client_id key_name"
  let ?A = "\<lambda>s. \<lparr>status = ACTIVE, T0 = start, world = silent s\<rparr>"
  let ?S = "\<lambda>s. \<lparr>status = STOPPING, T0 = start, world = silent s\<rparr>"
  have "?T (?A s) = ?S s'" if r: "r = Inr s'"
    using loop_pass_ends [OF ends]
  proof (elim disjE conjE exE, goal_cases)
    case 1
    then show ?case using r by (simp add: spec_tick_def)
  next
    case 2
    then show ?case using r by (auto simp: spec_tick_def print_unfold split: if_splits)
  next
    case 3
    then show ?case using r by simp
  next
    case (4 u)
    then show ?case using r by (simp add: spec_tick_def spec_wait_def is_set_def max_def)
  next
    case 5
    then show ?case using r by simp
  qed
  then have "r = Inr s' \<longrightarrow> (?T ^^ 1) (?A s) = ?S s'" by simp
  then show ?case by blast
next
  case (again s s3 r)
  let ?T = "spec_tick a KEYMAP hw stop_at client_id key_name"
  let ?A = "\<lambda>s. \<lparr>status = ACTIVE, T0 = start, world = silent s\<rparr>"
  let ?S = "\<lambda>s. \<lparr>status = STOPPING, T0 = start, world = silent s\<rparr>"
  let ?R = "send_scancodes_for_key a KEYMAP hw key_name (s\<lparr>clock := clock s + interval a\<rparr>)"
  have w: "spec_wait stop_at (interval a) (silent s) = (False, (silent s)\<lparr>clock := clock s + interval a\<rparr>)"
    using loop_pass_again(4) [OF again(1)]
    by (cases stop_at) (auto simp: spec_wait_def)
  have s3: "silent s3 = silent (snd ?R)"
    by (subst loop_pass_again(6) [OF again(1)]) simp
  have "snd (send_scancodes_for_key a KEYMAP hw key_name ((silent s)\<lparr>clock := clock s + interval a\<rparr>))
      = silent (snd ?R)"
    using silent_send [of a KEYMAP hw key_name "s\<lparr>clock := clock s + interval a\<rparr>"] by simp
  then have t: "?T (?A s) = ?A s3"
    using loop_pass_again(1,2) [OF again(1)] w s3
    by (simp add: spec_tick_def)
  show ?case
  proof
    assume "r = Inr s'"
    with again(2) obtain n where "(?T ^^ n) (?A s3) = ?S s'" by blast
    then have "(?T ^^ Suc n) (?A s) = ?S s'"
      using t by (simp add: funpow_swap1)
    then show "\<exists>n. (?T ^^ n) (?A s) = ?S s'" by blast
  qed
qed

lemma thread_result_exact:
  assumes "repeat_thread_func p a KEYMAP hw stop_at client_id key_name s = Some (Inr s')"
  shows "\<exists>s2 s3. silent s2 = silent (snd (send_scancodes_for_key a KEYMAP hw key_name s)) \<and>
     repeat_loop p a KEYMAP hw stop_at client_id key_name (clock s) s2 = Some (Inr s3) \<and>
     s' = s3\<lparr>effects := effects s3 @ [(clock s3, Pop (client_id, key_name)),
                                       (clock s3, Print (Thread_exit client_id key_name))]\<rparr>"
proof -
  obtain ok msg s1 where r: "send_scancodes_for_key a KEYMAP hw key_name s = ((ok, msg), s1)"
    by (metis prod.collapse)
  define s2 where "s2 = s1\<lparr>effects := effects s1 @ [(clock s1, Print (Initial_send client_id key_name ok msg))]\<rparr>"
  from assms r obtain s3 where
    l: "repeat_loop p a KEYMAP hw stop_at client_id key_name (clock s) s2 = Some (Inr s3)"
    and s': "print p (Thread_exit client_id key_name) (pop (client_id, key_name) s3) = Inr s'"
    by (auto simp: repeat_thread_func_def Let_def print_unfold s2_def
        split: if_splits option.splits sum.splits)
  from s' have "s' = s3\<lparr>effects := effects s3 @ [(clock s3, Pop (client_id, key_name)),
                                       (clock s3, Print (Thread_exit client_id key_name))]\<rparr>"
    by (auto simp: print_unfold pop_def split: if_splits)
  moreover have "silent s2 = silent (snd (send_scancodes_for_key a KEYMAP hw key_name s))"
    using r by (simp add: s2_def)
  ultimately show ?thesis using l by blast
qed

text \<open>
  The thread does what the specification's scheduler does, as long as no exception
  escapes it and it is stopped or has a finite max-hold time. Started as the
  specification says (start time recorded, one immediate send), the machine reaches
  TERMINATED after finitely many ticks, and it does so in the state in which
  \<^verbatim>\<open>repeat_thread_func\<close> returns, printed lines apart: the same transmit calls with the
  same outcomes at the same times, the same removal from the registry, the same clock.
\<close>

theorem thread_follows_spec_scheduler:
  assumes "REPEAT_INTERVAL_MS a \<le> FLOAT_MAX p" and "interval a \<le> TIMEOUT_MAX p"
    and "\<forall>l. stdout_accepts p l"
    and "stop_at \<noteq> None \<or> MAX_HOLD_S a \<noteq> PosInf"
  shows "\<exists>s' n. repeat_thread_func p a KEYMAP hw stop_at client_id key_name s = Some (Inr s') \<and>
     (spec_tick a KEYMAP hw stop_at client_id key_name ^^ n)
          (spec_start a KEYMAP hw key_name (silent s)) =
        \<lparr>status = TERMINATED, T0 = clock s, world = silent s'\<rparr>"
proof -
  let ?T = "spec_tick a KEYMAP hw stop_at client_id key_name"
  have u: "undisturbed p a" using assms(1-3) by (simp add: undisturbed_def)
  from thread_returns [OF u assms(4)] obtain s' where
    s': "repeat_thread_func p a KEYMAP hw stop_at client_id key_name s = Some (Inr s')" by blast
  from thread_result_exact [OF s'] obtain s2 s3 where
    s2: "silent s2 = silent (snd (send_scancodes_for_key a KEYMAP hw key_name s))"
    and l: "repeat_loop p a KEYMAP hw stop_at client_id key_name (clock s) s2 = Some (Inr s3)"
    and e: "s' = s3\<lparr>effects := effects s3 @ [(clock s3, Pop (client_id, key_name)),
                                       (clock s3, Print (Thread_exit client_id key_name))]\<rparr>"
    by blast
  have st: "spec_start a KEYMAP hw key_name (silent s) =
      \<lparr>status = ACTIVE, T0 = clock s, world = silent s2\<rparr>"
    using s2 by (simp add: spec_start_def silent_send)
  obtain n where n: "(?T ^^ n) \<lparr>status = ACTIVE, T0 = clock s, world = silent s2\<rparr> =
      \<lparr>status = STOPPING, T0 = clock s, world = silent s3\<rparr>"
    using spec_loop [OF l, of s3] by blast
  have "silent s' = pop (client_id, key_name) (silent s3)"
    unfolding e by (simp add: silent_def pop_def)
  then have fin: "?T \<lparr>status = STOPPING, T0 = clock s, world = silent s3\<rparr> =
      \<lparr>status = TERMINATED, T0 = clock s, world = silent s'\<rparr>"
    by (simp add: spec_tick_def)
  have "(?T ^^ Suc n) (spec_start a KEYMAP hw key_name (silent s)) =
      \<lparr>status = TERMINATED, T0 = clock s, world = silent s'\<rparr>"
    using st n fin by simp
  with s' show ?thesis by blast
qed

text \<open>
  When no exception escapes the thread and it is stopped or has a finite max-hold time,
  it returns, whatever its sends returned, and only with its event set or the max-hold
  time elapsed; the last things it does are to remove the entry of its own pair, which
  it does once, and to print the exit line.
\<close>

theorem thread_deregisters_last:
  assumes "REPEAT_INTERVAL_MS a \<le> FLOAT_MAX p" and "interval a \<le> TIMEOUT_MAX p"
    and "\<forall>l. stdout_accepts p l"
    and "stop_at \<noteq> None \<or> MAX_HOLD_S a \<noteq> PosInf"
  shows "\<exists>s' pre. repeat_thread_func p a KEYMAP hw stop_at client_id key_name s = Some (Inr s') \<and>
     effects s' = effects s @ pre @ [(clock s', Pop (client_id, key_name)),
                                     (clock s', Print (Thread_exit client_id key_name))] \<and>
     filter (is_pop \<circ> snd) pre = [] \<and>
     (is_set stop_at s' \<or> float_le (MAX_HOLD_S a) (Finite (clock s' - clock s)))"
proof -
  have u: "undisturbed p a" using assms(1-3) by (simp add: undisturbed_def)
  from thread_returns [OF u assms(4)] obtain s' where
    s': "repeat_thread_func p a KEYMAP hw stop_at client_id key_name s = Some (Inr s')" by blast
  from thread_result [OF s'] obtain s2 s3 pre where
    e2: "effects s2 = effects s @ pre" "filter (is_pop \<circ> snd) pre = []"
    and l: "repeat_loop p a KEYMAP hw stop_at client_id key_name (clock s) s2 = Some (Inr s3)"
    and e': "s' = s3\<lparr>effects := effects s3 @ [(clock s3, Pop (client_id, key_name)),
                                       (clock s3, Print (Thread_exit client_id key_name))]\<rparr>"
    by blast
  from repeat_loop_effects [OF l] obtain post where
    post: "effects s3 = effects s2 @ post" "filter (is_pop \<circ> snd) post = []"
    by auto
  have c': "clock s' = clock s3" using e' by simp
  have x: "is_set stop_at s3 \<or> float_le (MAX_HOLD_S a) (Finite (clock s3 - clock s))"
    using repeat_loop_exit [OF l, of s3] by simp
  have "is_set stop_at s' = is_set stop_at s3" unfolding is_set_def c' by (rule refl)
  with x c' have "is_set stop_at s' \<or> float_le (MAX_HOLD_S a) (Finite (clock s' - clock s))"
    by simp
  moreover have "effects s' = effects s @ (pre @ post) @ [(clock s', Pop (client_id, key_name)),
                                     (clock s', Print (Thread_exit client_id key_name))]"
    using e' e2(1) post(1) by simp
  moreover have "filter (is_pop \<circ> snd) (pre @ post) = []" using e2(2) post(2) by simp
  ultimately show ?thesis using s' by blast
qed


theorem thread_follows_spec_scheduler_witness:
  "REPEAT_INTERVAL_MS quick_args \<le> FLOAT_MAX demo_platform \<and>
   interval quick_args \<le> TIMEOUT_MAX demo_platform \<and>
   (\<forall>l. stdout_accepts demo_platform l) \<and>
   (Some (1 / 4) \<noteq> (None :: rat option) \<or> MAX_HOLD_S quick_args \<noteq> PosInf) \<and>
   (\<exists>s' n. repeat_thread_func demo_platform quick_args demo_keymap hw_ok (Some (1 / 4))
              ''c1'' ''power'' (fresh 0) = Some (Inr s') \<and>
     (spec_tick quick_args demo_keymap hw_ok (Some (1 / 4)) ''c1'' ''power'' ^^ n)
          (spec_start quick_args demo_keymap hw_ok ''power'' (silent (fresh 0))) =
        \<lparr>status = TERMINATED, T0 = clock (fresh 0), world = silent s'\<rparr>)"
proof -
  have p: "REPEAT_INTERVAL_MS quick_args \<le> FLOAT_MAX demo_platform"
    "interval quick_args \<le> TIMEOUT_MAX demo_platform"
    "\<forall>l. stdout_accepts demo_platform l"
    by (simp_all add: REPEAT_INTERVAL_MS_def interval_def quick_args_def demo_platform_def)
  have t: "Some (1 / 4) \<noteq> (None :: rat option) \<or> MAX_HOLD_S quick_args \<noteq> PosInf" by simp
  show ?thesis
    using thread_follows_spec_scheduler [OF p t, of demo_keymap hw_ok "''c1''" "''power''" "fresh 0"] p
    by simp
qed

theorem thread_deregisters_last_witness:
  "REPEAT_INTERVAL_MS quick_args \<le> FLOAT_MAX demo_platform \<and>
   interval quick_args \<le> TIMEOUT_MAX demo_platform \<and>
   (\<forall>l. stdout_accepts demo_platform l) \<and>
   MAX_HOLD_S quick_args \<noteq> PosInf \<and>
   (\<exists>s' pre. repeat_thread_func demo_platform quick_args demo_keymap hw_broken None
              ''c1'' ''power'' (fresh 0) = Some (Inr s') \<and>
     effects s' = effects (fresh 0) @ pre @ [(clock s', Pop (''c1'', ''power'')),
                                     (clock s', Print (Thread_exit ''c1'' ''power''))] \<and>
     filter (is_pop \<circ> snd) pre = [] \<and>
     (is_set None s' \<or> float_le (MAX_HOLD_S quick_args) (Finite (clock s' - clock (fresh 0)))))"
proof -
  have p: "REPEAT_INTERVAL_MS quick_args \<le> FLOAT_MAX demo_platform"
    "interval quick_args \<le> TIMEOUT_MAX demo_platform"
    "\<forall>l. stdout_accepts demo_platform l"
    by (simp_all add: REPEAT_INTERVAL_MS_def interval_def quick_args_def demo_platform_def)
  have m: "MAX_HOLD_S quick_args \<noteq> PosInf"
    by (simp add: MAX_HOLD_S_def quick_args_def)
  then have t: "None \<noteq> (None :: rat option) \<or> MAX_HOLD_S quick_args \<noteq> PosInf" by simp
  show ?thesis
    using thread_deregisters_last [OF p t, of demo_keymap hw_broken "''c1''" "''power''" "fresh 0"] p m
    by simp
qed


section \<open>The registry: results\<close>

lemma do_action_down:
  "do_action a KEYMAP hw now ''down'' key client_id sv =
     (if (client_id, key) \<in> dom (active_presses sv) then (Json 200 True Already_down, [], sv)
      else (Json 200 True Started, [], register now client_id key sv))"
  by (simp add: do_action_def register_def Let_def)

lemma do_action_up:
  "do_action a KEYMAP hw now ''up'' key client_id sv =
     (case active_presses sv (client_id, key) of
        None \<Rightarrow> (Json 200 True Not_active, [], sv)
      | Some i \<Rightarrow> (Json 200 True Stopping, [], sv\<lparr>events := (events sv)[stop_event i := True]\<rparr>))"
  by (simp add: do_action_def Let_def)

lemma do_POST_down:
  "client_id \<noteq> [] \<Longrightarrow> key \<noteq> [] \<Longrightarrow>
   do_POST a KEYMAP hw now (down_request client_id key) sv =
     (if (client_id, key) \<in> dom (active_presses sv) then (Json 200 True Already_down, [], sv)
      else (Json 200 True Started, [], register now client_id key sv))"
  by (simp add: do_POST_def down_request_def do_action_down)

lemma do_POST_up:
  "client_id \<noteq> [] \<Longrightarrow> key \<noteq> [] \<Longrightarrow>
   do_POST a KEYMAP hw now (up_request client_id key) sv =
     (case active_presses sv (client_id, key) of
        None \<Rightarrow> (Json 200 True Not_active, [], sv)
      | Some i \<Rightarrow> (Json 200 True Stopping, [], sv\<lparr>events := (events sv)[stop_event i := True]\<rparr>))"
  by (simp add: do_POST_def up_request_def do_action_up)

lemma do_action_server:
  "snd (snd (do_action a KEYMAP hw now action key client_id sv)) = sv \<or>
   ((client_id, key) \<notin> dom (active_presses sv) \<and>
    snd (snd (do_action a KEYMAP hw now action key client_id sv)) = register now client_id key sv) \<or>
   (\<exists>i. active_presses sv (client_id, key) = Some i \<and>
    snd (snd (do_action a KEYMAP hw now action key client_id sv)) =
      sv\<lparr>events := (events sv)[stop_event i := True]\<rparr>)"
proof -
  consider "action = ''click''" | "action = ''down''" | "action = ''up''"
    | "action \<noteq> ''click''" "action \<noteq> ''down''" "action \<noteq> ''up''"
    by blast
  then show ?thesis
  proof cases
    case 1
    then show ?thesis by (simp add: do_action_def split: prod.splits)
  next
    case 2
    then show ?thesis by (simp add: do_action_down)
  next
    case 3
    then show ?thesis by (simp add: do_action_up split: option.splits)
  next
    case 4
    then show ?thesis by (simp add: do_action_def)
  qed
qed

lemma do_POST_server:
  "snd (snd (do_POST a KEYMAP hw now req sv)) = sv \<or>
   (\<exists>c k. (c, k) \<notin> dom (active_presses sv) \<and>
      snd (snd (do_POST a KEYMAP hw now req sv)) = register now c k sv) \<or>
   (\<exists>k i. active_presses sv k = Some i \<and>
      snd (snd (do_POST a KEYMAP hw now req sv)) = sv\<lparr>events := (events sv)[stop_event i := True]\<rparr>)"
proof (cases "path req = ''/action''")
  case False
  then show ?thesis by (simp add: do_POST_def)
next
  case True
  show ?thesis
  proof (cases "body req")
    case (Bad_json e)
    then show ?thesis using True by (simp add: do_POST_def)
  next
    case (Object x y z)
    show ?thesis
    proof (cases "\<exists>action key client_id. x = Some action \<and> y = Some key \<and> z = Some client_id
        \<and> action \<noteq> [] \<and> key \<noteq> [] \<and> client_id \<noteq> []")
      case True
      then obtain action key client_id where f: "x = Some action" "y = Some key" "z = Some client_id"
        "action \<noteq> []" "key \<noteq> []" "client_id \<noteq> []" by blast
      have e: "do_POST a KEYMAP hw now req sv = do_action a KEYMAP hw now action key client_id sv"
        using \<open>path req = ''/action''\<close> Object f by (simp add: do_POST_def)
      show ?thesis
        unfolding e using do_action_server [of a KEYMAP hw now action key client_id sv] by blast
    next
      case False
      then have "do_POST a KEYMAP hw now req sv = (Json 400 False Missing_fields, [], sv)"
        using \<open>path req = ''/action''\<close> Object
        by (cases x; cases y; cases z) (auto simp: do_POST_def)
      then show ?thesis by simp
    qed
  qed
qed

lemma registry_okD1:
  assumes "registry_ok sv" and "active_presses sv k = Some i"
  shows "thread i < length (threads sv)"
    and "threads sv ! thread i =
          \<lparr>t_client = fst k, t_key = snd k, t_stop_event = stop_event i, deregistered = False\<rparr>"
    and "stop_event i < length (events sv)"
proof -
  from assms(1) have "\<forall>k i. active_presses sv k = Some i \<longrightarrow>
        thread i < length (threads sv) \<and>
        threads sv ! thread i =
          \<lparr>t_client = fst k, t_key = snd k, t_stop_event = stop_event i, deregistered = False\<rparr> \<and>
        stop_event i < length (events sv)"
    unfolding registry_ok_def by (rule conjunct1)
  then have c: "thread i < length (threads sv) \<and>
        threads sv ! thread i =
          \<lparr>t_client = fst k, t_key = snd k, t_stop_event = stop_event i, deregistered = False\<rparr> \<and>
        stop_event i < length (events sv)"
    using assms(2) by (elim allE impE) assumption
  from c show "thread i < length (threads sv)" by (rule conjunct1)
  from c show "threads sv ! thread i =
          \<lparr>t_client = fst k, t_key = snd k, t_stop_event = stop_event i, deregistered = False\<rparr>"
    by (elim conjE)
  from c show "stop_event i < length (events sv)" by (elim conjE)
qed

lemma registry_okD2:
  assumes "registry_ok sv" and "j < length (threads sv)" and "\<not> deregistered (threads sv ! j)"
  shows "\<exists>i. active_presses sv (t_client (threads sv ! j), t_key (threads sv ! j)) = Some i \<and>
             thread i = j"
proof -
  from assms(1) have "\<forall>j < length (threads sv). \<not> deregistered (threads sv ! j) \<longrightarrow>
        (\<exists>i. active_presses sv (t_client (threads sv ! j), t_key (threads sv ! j)) = Some i \<and>
             thread i = j)"
    unfolding registry_ok_def by (rule conjunct2)
  then show ?thesis using assms(2,3) by (elim allE impE) assumption+
qed

lemma registry_ok_init: "registry_ok init_server"
  by (simp add: registry_ok_def init_server_def)

lemma registry_ok_register:
  assumes "registry_ok sv" and "(c, k) \<notin> dom (active_presses sv)"
  shows "registry_ok (register now c k sv)"
  unfolding registry_ok_def
proof (rule conjI; intro allI impI)
  fix k' i
  assume e: "active_presses (register now c k sv) k' = Some i"
  show "thread i < length (threads (register now c k sv)) \<and>
        threads (register now c k sv) ! thread i =
          \<lparr>t_client = fst k', t_key = snd k', t_stop_event = stop_event i, deregistered = False\<rparr> \<and>
        stop_event i < length (events (register now c k sv))"
  proof (cases "k' = (c, k)")
    case True
    with e show ?thesis by (auto simp: register_def)
  next
    case False
    with e have "active_presses sv k' = Some i" by (simp add: register_def)
    then show ?thesis
      using registry_okD1 [OF assms(1), of k' i] by (simp add: register_def nth_append)
  qed
next
  fix j
  assume j: "j < length (threads (register now c k sv))"
    and l: "\<not> deregistered (threads (register now c k sv) ! j)"
  show "\<exists>i. active_presses (register now c k sv)
              (t_client (threads (register now c k sv) ! j), t_key (threads (register now c k sv) ! j)) = Some i \<and>
            thread i = j"
  proof (cases "j < length (threads sv)")
    case True
    then have t: "threads (register now c k sv) ! j = threads sv ! j"
      by (simp add: register_def nth_append)
    with l True obtain i where
      i: "active_presses sv (t_client (threads sv ! j), t_key (threads sv ! j)) = Some i" "thread i = j"
      using registry_okD2 [OF assms(1), of j] by auto
    with assms(2) have "(t_client (threads sv ! j), t_key (threads sv ! j)) \<noteq> (c, k)" by auto
    with i t show ?thesis by (auto simp: register_def)
  next
    case False
    with j have "j = length (threads sv)" by (simp add: register_def)
    then show ?thesis by (simp add: register_def)
  qed
qed

lemma registry_ok_events:
  "registry_ok sv \<Longrightarrow> registry_ok (sv\<lparr>events := (events sv)[n := b]\<rparr>)"
  by (simp add: registry_ok_def)

lemma registry_ok_pop:
  assumes "registry_ok sv"
  shows "registry_ok (step a KEYMAP (Thread_pop j) sv)"
proof (cases "j < length (threads sv) \<and> \<not> deregistered (threads sv ! j)")
  case False
  then show ?thesis using assms by auto
next
  case True
  let ?kj = "(t_client (threads sv ! j), t_key (threads sv ! j))"
  let ?sv' = "sv\<lparr>active_presses := (active_presses sv)(?kj := None),
           threads := (threads sv)[j := (threads sv ! j)\<lparr>deregistered := True\<rparr>]\<rparr>"
  have eq: "step a KEYMAP (Thread_pop j) sv = ?sv'" using True by simp
  from True obtain ij where ij: "active_presses sv ?kj = Some ij" "thread ij = j"
    using registry_okD2 [OF assms, of j] by auto
  have "registry_ok ?sv'"
    unfolding registry_ok_def
  proof (rule conjI; intro allI impI)
    fix k' i
    assume e: "active_presses ?sv' k' = Some i"
    then have ne: "k' \<noteq> ?kj" and e': "active_presses sv k' = Some i"
      by (auto split: if_splits)
    note p = registry_okD1 [OF assms e']
    have "thread i \<noteq> j"
    proof
      assume "thread i = j"
      with p(2) have "?kj = k'" by simp
      with ne show False by simp
    qed
    with p show "thread i < length (threads ?sv') \<and>
        threads ?sv' ! thread i =
          \<lparr>t_client = fst k', t_key = snd k', t_stop_event = stop_event i, deregistered = False\<rparr> \<and>
        stop_event i < length (events ?sv')"
      by simp
  next
    fix j'
    assume j': "j' < length (threads ?sv')" and l: "\<not> deregistered (threads ?sv' ! j')"
    have nj: "j' \<noteq> j"
    proof
      assume "j' = j"
      with l True show False by simp
    qed
    with j' l have l': "j' < length (threads sv)" "\<not> deregistered (threads sv ! j')"
      and t: "threads ?sv' ! j' = threads sv ! j'"
      by simp_all
    then obtain i where
      i: "active_presses sv (t_client (threads sv ! j'), t_key (threads sv ! j')) = Some i" "thread i = j'"
      using registry_okD2 [OF assms, of j'] by auto
    have "(t_client (threads sv ! j'), t_key (threads sv ! j')) \<noteq> ?kj"
    proof
      assume "(t_client (threads sv ! j'), t_key (threads sv ! j')) = ?kj"
      with i ij have "j' = j" by simp
      with nj show False by simp
    qed
    with i t show "\<exists>i. active_presses ?sv'
              (t_client (threads ?sv' ! j'), t_key (threads ?sv' ! j')) = Some i \<and> thread i = j'"
      by simp
  qed
  with eq show ?thesis by simp
qed

lemma registry_ok_step: "registry_ok sv \<Longrightarrow> registry_ok (step a KEYMAP x sv)"
proof (cases x)
  case (Post hw now req)
  assume ok: "registry_ok sv"
  from do_POST_server [of a KEYMAP hw now req sv] show ?thesis
    using ok Post registry_ok_register registry_ok_events by (elim disjE exE conjE) simp_all
next
  case (Thread_pop j)
  assume "registry_ok sv"
  then show ?thesis using Thread_pop registry_ok_pop by simp
qed

lemma registry_ok_run: "registry_ok sv \<Longrightarrow> registry_ok (run a KEYMAP xs sv)"
  by (induction xs arbitrary: sv) (simp_all add: registry_ok_step)

lemma filter_single:
  assumes "j < length xs" and "P (xs ! j)" and "\<And>i. i < length xs \<Longrightarrow> P (xs ! i) \<Longrightarrow> i = j"
  shows "filter P xs = [xs ! j]"
proof -
  have xs: "xs = take j xs @ xs ! j # drop (Suc j) xs"
    using assms(1) by (simp add: id_take_nth_drop)
  have 1: "filter P (take j xs) = []"
  proof (simp add: filter_empty_conv, intro ballI)
    fix x assume "x \<in> set (take j xs)"
    then obtain i where i: "i < length (take j xs)" "take j xs ! i = x"
      by (auto simp: in_set_conv_nth)
    then have "i < j" "i < length xs" "xs ! i = x" by simp_all
    with assms(3) [of i] show "\<not> P x" by auto
  qed
  have 2: "filter P (drop (Suc j) xs) = []"
  proof (simp add: filter_empty_conv, intro ballI)
    fix x assume "x \<in> set (drop (Suc j) xs)"
    then obtain i where i: "i < length (drop (Suc j) xs)" "drop (Suc j) xs ! i = x"
      by (auto simp: in_set_conv_nth)
    then have "Suc j + i < length xs" "xs ! (Suc j + i) = x" by simp_all
    with assms(3) [of "Suc j + i"] show "\<not> P x" by auto
  qed
  have "filter P xs = filter P (take j xs) @ filter P [xs ! j] @ filter P (drop (Suc j) xs)"
    by (subst xs) simp
  then show ?thesis using 1 2 assms(2) by simp
qed

lemma live_registry:
  assumes "registry_ok sv"
  shows "live k sv =
     (case active_presses sv k of
        None \<Rightarrow> []
      | Some i \<Rightarrow> [\<lparr>t_client = fst k, t_key = snd k, t_stop_event = stop_event i, deregistered = False\<rparr>])"
proof -
  let ?P = "\<lambda>t. (t_client t, t_key t) = k \<and> \<not> deregistered t"
  have reg: "\<exists>i. active_presses sv k = Some i \<and> thread i = j"
    if "j < length (threads sv)" and "?P (threads sv ! j)" for j
  proof -
    from that have "\<not> deregistered (threads sv ! j)" by simp
    from registry_okD2 [OF assms that(1) this]
    obtain i where "active_presses sv (t_client (threads sv ! j), t_key (threads sv ! j)) = Some i"
      and "thread i = j" by (elim exE conjE)
    moreover from that have "(t_client (threads sv ! j), t_key (threads sv ! j)) = k" by simp
    ultimately show ?thesis by simp
  qed
  show ?thesis
  proof (cases "active_presses sv k")
    case None
    have "\<not> ?P t" if "t \<in> set (threads sv)" for t
    proof
      assume a: "?P t"
      from that obtain j where "j < length (threads sv)" "threads sv ! j = t"
        unfolding in_set_conv_nth by (elim exE conjE)
      with a reg [of j] None show False by simp
    qed
    then have "filter ?P (threads sv) = []" by (simp only: filter_empty_conv) blast
    then show ?thesis using None by (simp add: live_def)
  next
    case (Some i)
    note p = registry_okD1 [OF assms Some]
    have P: "?P (threads sv ! thread i)" by (simp add: p(2))
    have "filter ?P (threads sv) = [threads sv ! thread i]"
    proof (rule filter_single)
      show "thread i < length (threads sv)" by (rule p(1))
      show "?P (threads sv ! thread i)" by (rule P)
      show "j = thread i" if "j < length (threads sv)" "?P (threads sv ! j)" for j
        using reg [OF that] Some by simp
    qed
    then show ?thesis using Some by (simp add: live_def p(2))
  qed
qed

lemma live_count:
  "registry_ok sv \<Longrightarrow> length (live k sv) = (if k \<in> dom (active_presses sv) then 1 else 0)"
  by (auto simp: live_registry split: option.splits)

lemma reachable_ok: "registry_ok (run a KEYMAP xs init_server)"
  by (rule registry_ok_run [OF registry_ok_init])

text \<open>
  C1: in every state the server can reach, a pair has at most one press thread that has
  not deregistered, and it has one exactly when the registry holds an entry for the
  pair. A \<^verbatim>\<open>down\<close> for a pair with an entry answers \<open>already down\<close> and leaves the server
  as it is: no entry, no thread. A \<^verbatim>\<open>down\<close> for a pair without an entry answers
  \<open>started\<close>, adds the pair's entry and starts one thread, the pair's only one.
\<close>

theorem one_session_per_pair:
  "length (live (c, k) (run a KEYMAP xs init_server)) \<le> 1 \<and>
   (length (live (c, k) (run a KEYMAP xs init_server)) = 1
      \<longleftrightarrow> (c, k) \<in> dom (active_presses (run a KEYMAP xs init_server))) \<and>
   (c \<noteq> [] \<and> k \<noteq> [] \<and> (c, k) \<in> dom (active_presses (run a KEYMAP xs init_server)) \<longrightarrow>
      do_POST a KEYMAP hw now (down_request c k) (run a KEYMAP xs init_server) =
        (Json 200 True Already_down, [], run a KEYMAP xs init_server)) \<and>
   (c \<noteq> [] \<and> k \<noteq> [] \<and> (c, k) \<notin> dom (active_presses (run a KEYMAP xs init_server)) \<longrightarrow>
      fst (do_POST a KEYMAP hw now (down_request c k) (run a KEYMAP xs init_server)) =
        Json 200 True Started \<and>
      dom (active_presses (snd (snd (do_POST a KEYMAP hw now (down_request c k)
             (run a KEYMAP xs init_server))))) =
        insert (c, k) (dom (active_presses (run a KEYMAP xs init_server))) \<and>
      threads (snd (snd (do_POST a KEYMAP hw now (down_request c k)
             (run a KEYMAP xs init_server)))) =
        threads (run a KEYMAP xs init_server) @
          [\<lparr>t_client = c, t_key = k,
            t_stop_event = length (events (run a KEYMAP xs init_server)),
            deregistered = False\<rparr>] \<and>
      length (live (c, k) (snd (snd (do_POST a KEYMAP hw now (down_request c k)
             (run a KEYMAP xs init_server))))) = 1)"
proof -
  let ?sv = "run a KEYMAP xs init_server"
  have ok: "registry_ok ?sv" by (rule reachable_ok)
  have 1: "length (live (c, k) ?sv) \<le> 1" by (simp add: live_count [OF ok])
  have 2: "length (live (c, k) ?sv) = 1 \<longleftrightarrow> (c, k) \<in> dom (active_presses ?sv)"
    by (simp add: live_count [OF ok])
  have 3: "do_POST a KEYMAP hw now (down_request c k) ?sv = (Json 200 True Already_down, [], ?sv)"
    if "c \<noteq> []" "k \<noteq> []" "(c, k) \<in> dom (active_presses ?sv)"
    using that by (simp add: do_POST_down)
  have 4: "fst (do_POST a KEYMAP hw now (down_request c k) ?sv) = Json 200 True Started \<and>
      dom (active_presses (snd (snd (do_POST a KEYMAP hw now (down_request c k) ?sv)))) =
        insert (c, k) (dom (active_presses ?sv)) \<and>
      threads (snd (snd (do_POST a KEYMAP hw now (down_request c k) ?sv))) =
        threads ?sv @
          [\<lparr>t_client = c, t_key = k, t_stop_event = length (events ?sv), deregistered = False\<rparr>] \<and>
      length (live (c, k) (snd (snd (do_POST a KEYMAP hw now (down_request c k) ?sv)))) = 1"
    if h: "c \<noteq> []" "k \<noteq> []" "(c, k) \<notin> dom (active_presses ?sv)"
  proof -
    have e: "do_POST a KEYMAP hw now (down_request c k) ?sv =
        (Json 200 True Started, [], register now c k ?sv)"
      using h by (simp add: do_POST_down)
    have ok': "registry_ok (register now c k ?sv)"
      by (rule registry_ok_register [OF ok h(3)])
    have L: "length (live (c, k) (register now c k ?sv)) = 1"
      using live_count [OF ok', of "(c, k)"] by (simp add: register_def)
    have t: "snd (snd (do_POST a KEYMAP hw now (down_request c k) ?sv)) = register now c k ?sv"
      using e by simp
    show ?thesis
    proof (intro conjI)
      show "fst (do_POST a KEYMAP hw now (down_request c k) ?sv) = Json 200 True Started"
        using e by simp
      show "dom (active_presses (snd (snd (do_POST a KEYMAP hw now (down_request c k) ?sv)))) =
          insert (c, k) (dom (active_presses ?sv))"
        unfolding t by (simp add: register_def)
      show "threads (snd (snd (do_POST a KEYMAP hw now (down_request c k) ?sv))) =
          threads ?sv @
            [\<lparr>t_client = c, t_key = k, t_stop_event = length (events ?sv), deregistered = False\<rparr>]"
        unfolding t by (simp add: register_def)
      show "length (live (c, k) (snd (snd (do_POST a KEYMAP hw now (down_request c k) ?sv)))) = 1"
        unfolding t by (rule L)
    qed
  qed
  show ?thesis using 1 2 3 4 by blast
qed

theorem one_session_per_pair_witness:
  "do_POST demo_args demo_keymap hw_ok 0 (down_request ''c1'' ''power'') init_server =
     (Json 200 True Started, [],
      run demo_args demo_keymap [Post hw_ok 0 (down_request ''c1'' ''power'')] init_server) \<and>
   length (live (''c1'', ''power'')
     (run demo_args demo_keymap [Post hw_ok 0 (down_request ''c1'' ''power'')] init_server)) = 1 \<and>
   do_POST demo_args demo_keymap hw_ok 1 (down_request ''c1'' ''power'')
     (run demo_args demo_keymap [Post hw_ok 0 (down_request ''c1'' ''power'')] init_server) =
     (Json 200 True Already_down, [],
      run demo_args demo_keymap [Post hw_ok 0 (down_request ''c1'' ''power'')] init_server) \<and>
   length (threads (run demo_args demo_keymap
     [Post hw_ok 0 (down_request ''c1'' ''power''), Post hw_ok 1 (down_request ''c1'' ''power'')]
     init_server)) = 1"
  using one_session_per_pair [where c = "''c1''" and k = "''power''" and a = demo_args
          and KEYMAP = demo_keymap and xs = "[]" and hw = hw_ok and now = 0]
        one_session_per_pair [where c = "''c1''" and k = "''power''" and a = demo_args
          and KEYMAP = demo_keymap and xs = "[Post hw_ok 0 (down_request ''c1'' ''power'')]"
          and hw = hw_ok and now = 1]
  by (simp add: do_POST_def do_action_def down_request_def init_server_def Let_def)

text \<open>
  C9: an \<^verbatim>\<open>up\<close> always answers 200 with \<open>ok\<close>. Without an entry for the pair it
  answers \<open>not active\<close> and changes nothing. With an entry it answers \<open>stopping\<close> and
  sets the entry's event, which is the event the pair's thread waits on; the registry and
  the threads are as before, the removal being left to the thread. A second \<^verbatim>\<open>up\<close>
  changes nothing more.
\<close>

theorem up_is_idempotent_and_succeeds:
  assumes "c \<noteq> []" and "k \<noteq> []"
  shows
   "(active_presses (run a KEYMAP xs init_server) (c, k) = None \<longrightarrow>
      do_POST a KEYMAP hw now (up_request c k) (run a KEYMAP xs init_server) =
        (Json 200 True Not_active, [], run a KEYMAP xs init_server)) \<and>
    (active_presses (run a KEYMAP xs init_server) (c, k) = Some i \<longrightarrow>
      do_POST a KEYMAP hw now (up_request c k) (run a KEYMAP xs init_server) =
        (Json 200 True Stopping, [],
         (run a KEYMAP xs init_server)
           \<lparr>events := (events (run a KEYMAP xs init_server))[stop_event i := True]\<rparr>) \<and>
      live (c, k) (run a KEYMAP xs init_server) =
        [\<lparr>t_client = c, t_key = k, t_stop_event = stop_event i, deregistered = False\<rparr>] \<and>
      stop_event i < length (events (run a KEYMAP xs init_server)) \<and>
      events (snd (snd (do_POST a KEYMAP hw now (up_request c k) (run a KEYMAP xs init_server))))
        ! stop_event i = True) \<and>
    active_presses (snd (snd (do_POST a KEYMAP hw now (up_request c k) (run a KEYMAP xs init_server))))
      = active_presses (run a KEYMAP xs init_server) \<and>
    threads (snd (snd (do_POST a KEYMAP hw now (up_request c k) (run a KEYMAP xs init_server))))
      = threads (run a KEYMAP xs init_server) \<and>
    snd (snd (do_POST a KEYMAP hw now' (up_request c k)
      (snd (snd (do_POST a KEYMAP hw now (up_request c k) (run a KEYMAP xs init_server))))))
      = snd (snd (do_POST a KEYMAP hw now (up_request c k) (run a KEYMAP xs init_server))) \<and>
    (\<exists>m. fst (do_POST a KEYMAP hw now (up_request c k) (run a KEYMAP xs init_server)) =
       Json 200 True m)"
proof -
  let ?sv = "run a KEYMAP xs init_server"
  have ok: "registry_ok ?sv" by (rule reachable_ok)
  note up = do_POST_up [OF assms]
  show ?thesis
  proof (cases "active_presses ?sv (c, k)")
    case None
    then show ?thesis by (simp add: up)
  next
    case (Some j)
    note p = registry_okD1 [OF ok Some]
    have l: "live (c, k) ?sv =
        [\<lparr>t_client = c, t_key = k, t_stop_event = stop_event j, deregistered = False\<rparr>]"
      using live_registry [OF ok, of "(c, k)"] Some by simp
    show ?thesis using Some p(3) l by (auto simp: up)
  qed
qed

theorem up_is_idempotent_and_succeeds_witness:
  "''c1'' \<noteq> [] \<and> ''power'' \<noteq> [] \<and>
   do_POST demo_args demo_keymap hw_ok 2 (up_request ''c1'' ''power'') init_server =
     (Json 200 True Not_active, [], init_server) \<and>
   fst (do_POST demo_args demo_keymap hw_ok 2 (up_request ''c1'' ''power'')
     (run demo_args demo_keymap [Post hw_ok 0 (down_request ''c1'' ''power'')] init_server)) =
     Json 200 True Stopping \<and>
   events (snd (snd (do_POST demo_args demo_keymap hw_ok 2 (up_request ''c1'' ''power'')
     (run demo_args demo_keymap [Post hw_ok 0 (down_request ''c1'' ''power'')] init_server)))) =
     [True]"
proof -
  have c: "''c1'' \<noteq> []" and k: "''power'' \<noteq> []" by simp_all
  show ?thesis
    using up_is_idempotent_and_succeeds [OF c k, where a = demo_args and KEYMAP = demo_keymap
            and xs = "[]" and hw = hw_ok and now = 2
            and i = "\<lparr>thread = 0, stop_event = 0, start_time = 0\<rparr>"]
          up_is_idempotent_and_succeeds [OF c k, where a = demo_args and KEYMAP = demo_keymap
            and xs = "[Post hw_ok 0 (down_request ''c1'' ''power'')]" and hw = hw_ok and now = 2
            and i = "\<lparr>thread = 0, stop_event = 0, start_time = 0\<rparr>"]
    by (simp add: do_POST_def do_action_def down_request_def up_request_def init_server_def Let_def)
qed














end
